theory Spec2Isabelle
  imports Complex_Main "HOL-Library.Multiset"
begin

section \<open>Conventions\<close>

text \<open>
  This theory embeds the clustering, bracketing, matrix-building and blank-subtraction
  routines of \<^verbatim>\<open>src/tidyms/dartms.py\<close>.

  \<^item> A one-dimensional NumPy array is a list; a \<^verbatim>\<open>float64\<close> is a \<^typ>\<open>real\<close>
    (exact arithmetic: rounding is not modelled). Where the source compares the result of a
    division, the comparison is written out for a zero divisor as IEEE arithmetic decides
    it (\<^verbatim>\<open>x/0\<close> is \<^verbatim>\<open>inf\<close>, \<^verbatim>\<open>-inf\<close> or \<^verbatim>\<open>nan\<close>, and every comparison
    with \<^verbatim>\<open>nan\<close> is false); in \<^verbatim>\<open>refine_clustering\<close>, which is compiled by numba, a
    division by zero raises. A cell of the data matrix is a \<^typ>\<open>real option\<close>, with
    \<^term>\<open>None\<close> for \<^verbatim>\<open>nan\<close>.
  \<^item> A Python exception is a value of type \<open>error\<close>; a function that can raise returns
    \<open>error + 'a\<close>.
  \<^item> A \<^verbatim>\<open>while\<close> loop that need not terminate is a \<^theory_text>\<open>partial_function (option)\<close>:
    \<^term>\<open>None\<close> means that the loop runs forever.
\<close>

datatype error =
  ValueError | IndexError | KeyError | AssertionError | RuntimeError | ZeroDivisionError

section \<open>NumPy primitives\<close>

text \<open>\<^verbatim>\<open>np.unique\<close>: the sorted distinct values; with \<^verbatim>\<open>return_counts\<close>, their counts.\<close>

definition np_unique :: "int list \<Rightarrow> int list" where
  "np_unique xs = sort (remdups xs)"

definition np_unique_counts :: "int list \<Rightarrow> nat list" where
  "np_unique_counts xs = map (count_list xs) (np_unique xs)"

text \<open>
  \<^verbatim>\<open>np.argsort\<close>: the indices that sort the array. Equal keys keep their index order
  here (a stable sort).
\<close>

definition argsort :: "'a::linorder list \<Rightarrow> nat list" where
  "argsort xs = sort_key (\<lambda>i. xs ! i) [0..<length xs]"

text \<open>
  \<^verbatim>\<open>np.max\<close>, \<^verbatim>\<open>np.min\<close>, \<^verbatim>\<open>np.mean\<close> of a non-empty array, and \<^verbatim>\<open>np.argmax\<close>,
  \<^verbatim>\<open>np.argmin\<close>, which return the first index of the extreme value. The callers below
  apply them to non-empty arrays, or test for emptiness first.
\<close>

definition np_max :: "'a::linorder list \<Rightarrow> 'a" where
  "np_max xs = fold max (tl xs) (hd xs)"

definition np_min :: "'a::linorder list \<Rightarrow> 'a" where
  "np_min xs = fold min (tl xs) (hd xs)"

definition np_mean :: "real list \<Rightarrow> real" where
  "np_mean xs = sum_list xs / real (length xs)"

definition np_argmax :: "'a::linorder list \<Rightarrow> nat" where
  "np_argmax xs = length (takeWhile (\<lambda>x. x \<noteq> np_max xs) xs)"

definition np_argmin :: "'a::linorder list \<Rightarrow> nat" where
  "np_argmin xs = length (takeWhile (\<lambda>x. x \<noteq> np_min xs) xs)"

text \<open>Boolean-mask indexing \<^verbatim>\<open>xs[mask]\<close>, and \<^verbatim>\<open>np.where(mask)\<close> / \<^verbatim>\<open>np.argwhere(mask)\<close>.\<close>

definition mask_select :: "'a list \<Rightarrow> bool list \<Rightarrow> 'a list" where
  "mask_select xs msk = map fst (filter snd (zip xs msk))"

definition np_where :: "bool list \<Rightarrow> nat list" where
  "np_where msk = filter (\<lambda>i. msk ! i) [0..<length msk]"

text \<open>\<^verbatim>\<open>np.sum\<close> of a Boolean array: the number of true entries.\<close>

definition count_true :: "bool list \<Rightarrow> nat" where
  "count_true msk = length (filter (\<lambda>b. b) msk)"

text \<open>\<^verbatim>\<open>np.cumsum\<close> of a Boolean array.\<close>

fun cumsum_from :: "int \<Rightarrow> bool list \<Rightarrow> int list" where
  "cumsum_from acc [] = []"
| "cumsum_from acc (b # bs) = (acc + of_bool b) # cumsum_from (acc + of_bool b) bs"

definition np_cumsum :: "bool list \<Rightarrow> int list" where
  "np_cumsum bs = cumsum_from 0 bs"

section \<open>Crude clustering (\<^verbatim>\<open>crude_cluster_mz_list\<close>)\<close>

text \<open>
  \<^verbatim>\<open>(d / b * 1E6) > t\<close> as the floating-point comparison decides it: for \<open>b = 0\<close> the
  quotient is \<^verbatim>\<open>inf\<close> when \<open>d\<close> is positive (the comparison holds) and \<^verbatim>\<open>nan\<close> or
  \<^verbatim>\<open>-inf\<close> otherwise (it fails).
\<close>

definition ppm_gt :: "real \<Rightarrow> real \<Rightarrow> real \<Rightarrow> bool" where
  "ppm_gt d b t = (if b = 0 then 0 < d else d / b * 1000000 > t)"

text \<open>
  The source sorts the masses, marks every gap above the threshold, numbers the clusters
  by the running count of marks and returns the ids in the input order
  (\<^verbatim>\<open>clust[np.argsort(mzOrd)]\<close>). \<^verbatim>\<open>intensity[mzOrd]\<close> raises when the intensity array is
  shorter than the mass array; its value is not used. The sorted array \<^verbatim>\<open>mz_\<close> of the source is \<open>mz'\<close> here.
\<close>

definition crude_cluster_mz_list :: "real list \<Rightarrow> real list \<Rightarrow> real \<Rightarrow> error + int list" where
  "crude_cluster_mz_list mz intensity min_difference_ppm =
     (let mzOrd = argsort mz;
          mz' = map (\<lambda>i. mz ! i) mzOrd;
          elems = length mz
      in if length intensity < elems then Inl IndexError
         else
           (let diffsPPM_gt = map2 (\<lambda>hi lo. ppm_gt (hi - lo) lo min_difference_ppm)
                                (drop 1 mz') (take (elems - 1) mz');
                clust = 0 # np_cumsum diffsPPM_gt
            in Inr (map (\<lambda>i. clust ! i) (argsort mzOrd))))"

section \<open>Reindexing (\<^verbatim>\<open>reindex_cluster\<close>)\<close>

text \<open>\<^verbatim>\<open>newClust[cluster == clustInd] = use\<close>: assignment through a Boolean mask.\<close>

definition mask_assign :: "'a list \<Rightarrow> bool list \<Rightarrow> 'a \<Rightarrow> 'a list" where
  "mask_assign xs msk v = map2 (\<lambda>x m. if m then v else x) xs msk"

fun reindex_loop :: "int list \<Rightarrow> int list \<Rightarrow> int list \<Rightarrow> int \<Rightarrow> int list" where
  "reindex_loop cluster [] newClust use = newClust"
| "reindex_loop cluster (clustInd # rest) newClust use =
     reindex_loop cluster rest
       (mask_assign newClust (map (\<lambda>c. c = clustInd) cluster) use) (use + 1)"

definition reindex_cluster :: "int list \<Rightarrow> int list" where
  "reindex_cluster cluster =
     reindex_loop cluster (np_unique cluster) (replicate (length cluster) 0) 0"

section \<open>Cluster refinement (\<^verbatim>\<open>refine_clustering\<close>)\<close>

text \<open>
  The loop state of one crude cluster: the marks \<^verbatim>\<open>used\<close> (\<open>0\<close> unassigned, \<open>1\<close> in the
  sub-cluster that is growing, \<open>-1\<close> in a closed sub-cluster), the masses \<^verbatim>\<open>usedMZs\<close> of
  the growing sub-cluster, the output array \<^verbatim>\<open>newClusts\<close> and the counter \<^verbatim>\<open>maxClust\<close>.
  The arrays \<^verbatim>\<open>mzs_\<close> and \<^verbatim>\<open>intensities_\<close> of the source are \<open>mzs'\<close> and
  \<open>intensities'\<close>; \<open>pos\<close> holds the positions of the crude cluster in the input.
\<close>

record rstate =
  used :: "int list"
  usedMZs :: "real list"
  newClusts :: "int list"
  maxClust :: int

text \<open>\<^verbatim>\<open>usedMZs[used == 1]\<close>.\<close>

definition used_mzs :: "rstate \<Rightarrow> real list" where
  "used_mzs s = mask_select (usedMZs s) (map (\<lambda>u. u = 1) (used s))"

text \<open>\<^verbatim>\<open>(np.max(..) - np.min(..)) / np.average(..) * 1E6\<close> over the growing sub-cluster.\<close>

definition ppm_dev :: "real list \<Rightarrow> real" where
  "ppm_dev ms = (np_max ms - np_min ms) / np_mean ms * 1000000"

text \<open>\<^verbatim>\<open>np.abs(mzs_ - e) + np.abs(used) * 1E6\<close>: the distance to an extreme of the sub-cluster,
  with a penalty on the signals that are marked.\<close>

definition dist_to :: "real list \<Rightarrow> int list \<Rightarrow> real \<Rightarrow> real list" where
  "dist_to mzs' us e = map2 (\<lambda>m u. \<bar>m - e\<bar> + \<bar>real_of_int u\<bar> * 1000000) mzs' us"

text \<open>The nearest signal to the upper or the lower end (the lower end wins a tie).\<close>

definition closest_signal :: "real list \<Rightarrow> rstate \<Rightarrow> nat" where
  "closest_signal mzs' s =
     (let tTop = dist_to mzs' (used s) (np_max (used_mzs s));
          closestTop = np_argmin tTop;
          tLow = dist_to mzs' (used s) (np_min (used_mzs s));
          closestLow = np_argmin tLow
      in if tTop ! closestTop < tLow ! closestLow then closestTop else closestLow)"

text \<open>Marking a signal as a member of the growing sub-cluster (the three assignments that
  follow the choice of the seed and of the closest signal).\<close>

definition take_signal :: "real list \<Rightarrow> nat list \<Rightarrow> nat \<Rightarrow> rstate \<Rightarrow> rstate" where
  "take_signal mzs' pos c s =
     s\<lparr>used := (used s)[c := 1],
       usedMZs := (usedMZs s)[c := mzs' ! c],
       newClusts := (newClusts s)[pos ! c := maxClust s + 1]\<rparr>"

text \<open>Rejecting the last addition and closing the sub-cluster.\<close>

definition close_cluster :: "int list \<Rightarrow> nat list \<Rightarrow> nat \<Rightarrow> rstate \<Rightarrow> rstate" where
  "close_cluster clusts pos closest s =
     s\<lparr>used := map (\<lambda>u. - \<bar>u\<bar>) ((used s)[closest := 0]),
       usedMZs := map (\<lambda>x. x * 0) ((usedMZs s)[closest := 0]),
       newClusts := (newClusts s)[pos ! closest := clusts ! (pos ! closest)],
       maxClust := maxClust s + 1\<rparr>"

text \<open>
  The inner loop \<^verbatim>\<open>while cont\<close>; it is entered with \<^verbatim>\<open>cont\<close> true and returns the
  state in which it sets \<^verbatim>\<open>cont\<close> to false. The function is compiled by
  \<^verbatim>\<open>numba.jit(nopython=True)\<close>, whose default error model raises \<^verbatim>\<open>ZeroDivisionError\<close>
  on a division by zero: the two quotients of an iteration, \<^verbatim>\<open>mzdevRSTD\<close> (which is not
  read afterwards) and \<^verbatim>\<open>newPPMDev\<close>, divide by the mean of the marked masses.
\<close>

partial_function (option) refine_grow ::
  "real list \<Rightarrow> nat list \<Rightarrow> int list \<Rightarrow> real \<Rightarrow> real option \<Rightarrow> real \<Rightarrow> rstate
     \<Rightarrow> (error + rstate) option"
where [code]:
  "refine_grow mzs' pos clusts closest_signal_max_deviation_ppm max_mz_deviation_ppm lastPPMDev s =
     (let closest = closest_signal mzs' s;
          s1 = take_signal mzs' pos closest s
      in if np_mean (used_mzs s1) = 0 then Some (Inl ZeroDivisionError)
         else
           (let newPPMDev = ppm_dev (used_mzs s1)
            in if count_list (used s1) 0 = 0
                  \<or> newPPMDev - lastPPMDev > closest_signal_max_deviation_ppm
                  \<or> (case max_mz_deviation_ppm of None \<Rightarrow> False | Some b \<Rightarrow> newPPMDev > b)
               then Some (Inr (close_cluster clusts pos closest s1))
               else refine_grow mzs' pos clusts closest_signal_max_deviation_ppm
                      max_mz_deviation_ppm newPPMDev s1))"

text \<open>The outer loop \<^verbatim>\<open>while sum(used == 0) > 0\<close>: choose the seed, then grow.\<close>

definition seed_signal :: "real list \<Rightarrow> rstate \<Rightarrow> nat" where
  "seed_signal intensities' s =
     np_argmax (map2 (\<lambda>i u. i * of_bool (u = 0)) intensities' (used s))"

partial_function (option) refine_while ::
  "real list \<Rightarrow> real list \<Rightarrow> nat list \<Rightarrow> int list \<Rightarrow> real \<Rightarrow> real option \<Rightarrow> rstate
     \<Rightarrow> (error + rstate) option"
where [code]:
  "refine_while mzs' intensities' pos clusts closest_signal_max_deviation_ppm max_mz_deviation_ppm s =
     (if count_list (used s) 0 > 0
      then
        (let c = seed_signal intensities' s;
             s1 = take_signal mzs' pos c s
         in if count_list (used s1) 0 > 0
            then
              (case refine_grow mzs' pos clusts closest_signal_max_deviation_ppm
                      max_mz_deviation_ppm 0 s1 of
                 None \<Rightarrow> None
               | Some (Inl e) \<Rightarrow> Some (Inl e)
               | Some (Inr s2) \<Rightarrow>
                   refine_while mzs' intensities' pos clusts closest_signal_max_deviation_ppm
                     max_mz_deviation_ppm s2)
            else refine_while mzs' intensities' pos clusts closest_signal_max_deviation_ppm
                   max_mz_deviation_ppm s1)
      else Some (Inr s))"

text \<open>
  The loop over \<^verbatim>\<open>enumerate(clustInds)\<close>. The size test reads \<^verbatim>\<open>clusts == i\<close>, with the
  position \<open>i\<close> of the id in the sorted distinct ids, and the positions of the cluster read
  \<^verbatim>\<open>clusts == clust\<close>. Indexing the masses or the intensities by the Boolean mask raises
  when their length differs from that of \<^verbatim>\<open>clusts\<close>.
\<close>

fun refine_for ::
  "real list \<Rightarrow> real list \<Rightarrow> int list \<Rightarrow> real \<Rightarrow> real option \<Rightarrow> (nat \<times> int) list
     \<Rightarrow> int list \<Rightarrow> int \<Rightarrow> (error + int list) option"
where
  "refine_for mzs intensities clusts cdev mdev [] newClusts0 maxClust0 = Some (Inr newClusts0)"
| "refine_for mzs intensities clusts cdev mdev ((i, clust) # rest) newClusts0 maxClust0 =
     (if count_list clusts (int i) > 1
      then
        (if length mzs \<noteq> length clusts \<or> length intensities \<noteq> length clusts
         then Some (Inl IndexError)
         else
           (let posmask = map (\<lambda>c. c = clust) clusts;
                mzs' = mask_select mzs posmask;
                intensities' = mask_select intensities posmask;
                pos = np_where posmask;
                s0 = \<lparr>used = replicate (length mzs') 0,
                      usedMZs = replicate (length mzs') 0,
                      newClusts = newClusts0,
                      maxClust = maxClust0 + 1\<rparr>
            in case refine_while mzs' intensities' pos clusts cdev mdev s0 of
                 None \<Rightarrow> None
               | Some (Inl e) \<Rightarrow> Some (Inl e)
               | Some (Inr s) \<Rightarrow> refine_for mzs intensities clusts cdev mdev rest
                                   (newClusts s) (maxClust s)))
      else refine_for mzs intensities clusts cdev mdev rest newClusts0 maxClust0)"

text \<open>
  \<^verbatim>\<open>refine_clustering(sample, mzs, intensities, spectrumID, clusts,
  expected_mz_deviation_ppm, closest_signal_max_deviation_ppm, max_mz_deviation_ppm)\<close>.
  The parameters \<^verbatim>\<open>sample\<close>, \<^verbatim>\<open>spectrumID\<close> and \<^verbatim>\<open>expected_mz_deviation_ppm\<close> are not read
  by the code. \<^verbatim>\<open>np.max(clusts)\<close> raises on an empty array. The result is \<^term>\<open>None\<close> when
  a loop does not terminate.
\<close>

definition refine_clustering ::
  "real list \<Rightarrow> real list \<Rightarrow> int list \<Rightarrow> real \<Rightarrow> real option \<Rightarrow> (error + int list) option"
where
  "refine_clustering mzs intensities clusts closest_signal_max_deviation_ppm max_mz_deviation_ppm =
     (if clusts = [] then Some (Inl ValueError)
      else refine_for mzs intensities clusts closest_signal_max_deviation_ppm
             max_mz_deviation_ppm (enumerate 0 (np_unique clusts)) clusts (np_max clusts))"

section \<open>Consensus collapse (\<^verbatim>\<open>collapse_mz_info\<close>)\<close>

text \<open>
  The accumulation loop over the signals: a signal with a non-negative cluster id \<open>j\<close> adds
  to the cells \<open>j\<close> of \<^verbatim>\<open>mz_\<close> and \<^verbatim>\<open>intensity_\<close> (here \<open>mzAcc\<close> and \<open>intAcc\<close>); an id
  beyond the arrays raises.
\<close>

fun collapse_loop ::
  "(real \<times> real \<times> int) list \<Rightarrow> real list \<Rightarrow> real list \<Rightarrow> error + (real list \<times> real list)"
where
  "collapse_loop [] mzAcc intAcc = Inr (mzAcc, intAcc)"
| "collapse_loop ((m, it, j) # rest) mzAcc intAcc =
     (if j \<ge> 0
      then
        (if nat j < length mzAcc
         then collapse_loop rest (mzAcc[nat j := mzAcc ! nat j + m * it])
                (intAcc[nat j := intAcc ! nat j + it])
         else Inl IndexError)
      else collapse_loop rest mzAcc intAcc)"

text \<open>
  \<^verbatim>\<open>collapse_mz_info(mz, intensity, cluster, intensity_collapse_method)\<close>. When \<open>-1\<close> is
  among the ids, the first of the sorted distinct ids and its count are dropped. The loop
  reads \<^verbatim>\<open>cluster[i]\<close> and \<^verbatim>\<open>intensity[i]\<close> for every index of \<^verbatim>\<open>mz\<close>, which raises when
  one of them is shorter. Under \<^verbatim>\<open>"max"\<close> the intensities become the scalar
  \<^verbatim>\<open>np.max(intensity_)\<close> (which raises on an empty array), and indexing that scalar by
  \<^verbatim>\<open>ord\<close> raises. The quotients are those of the reals: the properties below are stated
  for positive cluster totals.
\<close>

definition collapse_mz_info ::
  "real list \<Rightarrow> real list \<Rightarrow> int list \<Rightarrow> string \<Rightarrow> error + (real list \<times> real list)"
where
  "collapse_mz_info mz intensity cluster intensity_collapse_method =
     (let clusts0 = np_unique cluster;
          ns0 = np_unique_counts cluster;
          clusts = (if - 1 \<in> set clusts0 then drop 1 clusts0 else clusts0);
          ns = (if - 1 \<in> set clusts0 then drop 1 ns0 else ns0)
      in if length cluster < length mz \<or> length intensity < length mz then Inl IndexError
         else
           (case collapse_loop (zip mz (zip intensity cluster))
                   (replicate (length clusts) 0) (replicate (length clusts) 0) of
              Inl e \<Rightarrow> Inl e
            | Inr (mzAcc, intAcc) \<Rightarrow>
                (let mzW = map2 (\<lambda>a b. a / b) mzAcc intAcc;
                     ord = argsort mzW
                 in if intensity_collapse_method = ''sum''
                    then Inr (map (\<lambda>i. mzW ! i) ord, map (\<lambda>i. intAcc ! i) ord)
                    else if intensity_collapse_method = ''average''
                    then (let intAvg = map2 (\<lambda>a n. a / real n) intAcc ns
                          in Inr (map (\<lambda>i. mzW ! i) ord, map (\<lambda>i. intAvg ! i) ord))
                    else if intensity_collapse_method = ''max''
                    then (if intAcc = [] then Inl ValueError else Inl IndexError)
                    else Inl RuntimeError)))"

text \<open>
  For the statements about \<^verbatim>\<open>collapse_mz_info\<close>: the signals (mass, intensity) of a
  cluster, their total intensity and their intensity-weighted mean mass.
\<close>

definition cluster_signals :: "real list \<Rightarrow> real list \<Rightarrow> int list \<Rightarrow> int \<Rightarrow> (real \<times> real) list"
where
  "cluster_signals ms intensity cluster c =
     map (\<lambda>(m, it, j). (m, it)) (filter (\<lambda>(m, it, j). j = c) (zip ms (zip intensity cluster)))"

definition total_intensity :: "(real \<times> real) list \<Rightarrow> real" where
  "total_intensity sigs = sum_list (map snd sigs)"

definition weighted_mean_mz :: "(real \<times> real) list \<Rightarrow> real" where
  "weighted_mean_mz sigs = sum_list (map (\<lambda>(m, it). m * it) sigs) / total_intensity sigs"

section \<open>Cross-sample bracketing (the loop of \<^verbatim>\<open>bracket_samples\<close>)\<close>

text \<open>
  The pooled arrays \<^verbatim>\<open>temp\<close> (one entry per consensus signal of every sample; the entry of
  \<^verbatim>\<open>temp["intensity"]\<close> is the decadic logarithm of the signal's intensity, as the pooling
  loop stores it), the counter \<^verbatim>\<open>cclust\<close> and the summaries \<^verbatim>\<open>tempClusterInfo\<close>.
\<close>

record bracket_info =
  info_cluster :: int
  meanMZ :: real
  minMZ :: real
  maxMZ :: real
  mzDevPPM :: real
  assignedSamples :: nat
  uniqueSamples :: nat

record bstate =
  temp_sample :: "string list"
  temp_mz :: "real list"
  temp_intensity :: "real list"
  temp_cluster :: "int list"
  cclust :: int
  tempClusterInfo :: "bracket_info list"

text \<open>
  \<^verbatim>\<open>np.abs(d) / m * 1E6 <= t\<close> as the floating-point comparison decides it: for \<open>m = 0\<close> the
  quotient is \<^verbatim>\<open>inf\<close> or \<^verbatim>\<open>nan\<close> and the comparison fails.
\<close>

definition ppm_le :: "real \<Rightarrow> real \<Rightarrow> real \<Rightarrow> bool" where
  "ppm_le d m t = (m \<noteq> 0 \<and> \<bar>d\<bar> / m * 1000000 \<le> t)"

text \<open>\<^verbatim>\<open>np.argmax(temp["intensity"] * (temp["cluster"] == 0))\<close>.\<close>

definition bracket_seed :: "bstate \<Rightarrow> nat" where
  "bracket_seed s =
     np_argmax (map2 (\<lambda>i c. i * of_bool (c = 0)) (temp_intensity s) (temp_cluster s))"

text \<open>\<^verbatim>\<open>np.where(np.abs(temp["mz"] - cmz) / temp["mz"] * 1E6 <= max_ppm_deviation)\<close>.\<close>

definition bracket_assign :: "real \<Rightarrow> bstate \<Rightarrow> nat list" where
  "bracket_assign max_ppm_deviation s =
     (let cmz = temp_mz s ! bracket_seed s
      in np_where (map (\<lambda>m. ppm_le (m - cmz) m max_ppm_deviation) (temp_mz s)))"

text \<open>\<^verbatim>\<open>xs[assign] = v\<close>: assignment through an index array.\<close>

definition index_assign :: "'a list \<Rightarrow> nat list \<Rightarrow> 'a \<Rightarrow> 'a list" where
  "index_assign xs inds v = fold (\<lambda>i ys. ys[i := v]) inds xs"

text \<open>
  One iteration of the loop. \<^verbatim>\<open>np.min\<close> of the selected masses raises when nothing was
  selected.
\<close>

definition bracket_step :: "real \<Rightarrow> bstate \<Rightarrow> error + bstate" where
  "bracket_step max_ppm_deviation s =
     (let assign = bracket_assign max_ppm_deviation s;
          mzs = map (\<lambda>i. temp_mz s ! i) assign
      in if mzs = [] then Inl ValueError
         else Inr (s\<lparr>temp_cluster := index_assign (temp_cluster s) assign (cclust s),
                     cclust := cclust s + 1,
                     tempClusterInfo := tempClusterInfo s @
                       [\<lparr>info_cluster = cclust s,
                         meanMZ = np_mean mzs,
                         minMZ = np_min mzs,
                         maxMZ = np_max mzs,
                         mzDevPPM = (np_max mzs - np_min mzs) / np_mean mzs * 1000000,
                         assignedSamples = length assign,
                         uniqueSamples =
                           length (remdups (map (\<lambda>i. temp_sample s ! i) assign))\<rparr>]\<rparr>))"

text \<open>\<^verbatim>\<open>while np.sum(temp["cluster"] == 0) > 0\<close>.\<close>

partial_function (option) bracket_loop :: "real \<Rightarrow> bstate \<Rightarrow> (error + bstate) option"
where [code]:
  "bracket_loop max_ppm_deviation s =
     (if count_list (temp_cluster s) 0 > 0
      then (let r = bracket_step max_ppm_deviation s
            in if isl r then Some (Inl (projl r))
               else bracket_loop max_ppm_deviation (projr r))
      else Some (Inr s))"

text \<open>The pool before the loop: every signal unassigned, \<^verbatim>\<open>cclust = 1\<close>, no summaries.\<close>

definition bracket_init :: "string list \<Rightarrow> real list \<Rightarrow> real list \<Rightarrow> bstate" where
  "bracket_init samples mzs log_intensities =
     \<lparr>temp_sample = samples, temp_mz = mzs, temp_intensity = log_intensities,
      temp_cluster = replicate (length mzs) 0, cclust = 1, tempClusterInfo = []\<rparr>"

section \<open>Data matrix (\<^verbatim>\<open>build_data_matrix\<close>)\<close>

text \<open>
  A consensus spectrum with its parallel arrays \<^verbatim>\<open>mz\<close> and \<^verbatim>\<open>spint\<close>. A bracket is read
  as \<^verbatim>\<open>(mzmin, meanmz, mzmax, _)\<close>; its fourth component is not used here.
\<close>

record spectrum =
  mz :: "real list"
  spint :: "real list"

type_synonym bracket = "real \<times> real \<times> real"

text \<open>
  One cell: the sum of the intensities in the window, or \<^verbatim>\<open>nan\<close> when the window holds no
  signal. Indexing \<^verbatim>\<open>spint\<close> by the mask raises when the two arrays differ in length.
\<close>

definition matrix_cell :: "spectrum \<Rightarrow> bracket \<Rightarrow> error + real option" where
  "matrix_cell sp b =
     (case b of (mzmin, meanmz, mzmax) \<Rightarrow>
        (let use = map (\<lambda>m. m \<ge> mzmin \<and> m \<le> mzmax) (mz sp)
         in if count_true use > 0
            then (if length (spint sp) \<noteq> length use then Inl IndexError
                  else Inr (Some (sum_list (mask_select (spint sp) use))))
            else Inr None))"

text \<open>The dictionary \<^verbatim>\<open>sampleNamesToRowI\<close>: a later entry replaces an earlier one.\<close>

definition sampleNamesToRowI :: "string list \<Rightarrow> (string \<rightharpoonup> nat)" where
  "sampleNamesToRowI sampleNames =
     fold (\<lambda>(i, sample) d. d(sample \<mapsto> i)) (enumerate 0 sampleNames) Map.empty"

fun fill_brackets ::
  "spectrum \<Rightarrow> nat \<Rightarrow> (nat \<times> bracket) list \<Rightarrow> real option list list
     \<Rightarrow> error + real option list list"
where
  "fill_brackets sp r [] dataMatrix = Inr dataMatrix"
| "fill_brackets sp r ((braci, b) # rest) dataMatrix =
     (case matrix_cell sp b of
        Inl e \<Rightarrow> Inl e
      | Inr v \<Rightarrow> fill_brackets sp r rest (dataMatrix[r := (dataMatrix ! r)[braci := v]]))"

fun fill_samples ::
  "(string \<Rightarrow> spectrum) \<Rightarrow> (string \<rightharpoonup> nat) \<Rightarrow> bracket list \<Rightarrow> string list
     \<Rightarrow> real option list list \<Rightarrow> error + real option list list"
where
  "fill_samples get_spectrum rowI bracketing_results [] dataMatrix = Inr dataMatrix"
| "fill_samples get_spectrum rowI bracketing_results (sample # rest) dataMatrix =
     (case rowI sample of
        None \<Rightarrow> Inl KeyError
      | Some r \<Rightarrow>
          (case fill_brackets (get_spectrum sample) r (enumerate 0 bracketing_results)
                  dataMatrix of
             Inl e \<Rightarrow> Inl e
           | Inr dataMatrix' \<Rightarrow>
               fill_samples get_spectrum rowI bracketing_results rest dataMatrix'))"

text \<open>
  \<^verbatim>\<open>build_data_matrix(assay, bracketing_results)\<close>. The assay is read through its sample
  names and through \<^verbatim>\<open>assay.get_ms_data(sample).get_spectrum(0)\<close>, here \<open>get_spectrum\<close>.
  The matrix starts as zeros.
\<close>

definition build_data_matrix ::
  "string list \<Rightarrow> (string \<Rightarrow> spectrum) \<Rightarrow> bracket list
     \<Rightarrow> error + (string list \<times> bracket list \<times> real option list list)"
where
  "build_data_matrix sampleNames get_spectrum bracketing_results =
     (let rowI = sampleNamesToRowI sampleNames;
          dataMatrix = replicate (length sampleNames)
                         (replicate (length bracketing_results) (Some 0))
      in case fill_samples get_spectrum rowI bracketing_results sampleNames dataMatrix of
           Inl e \<Rightarrow> Inl e
         | Inr dataMatrix' \<Rightarrow> Inr (sampleNames, bracketing_results, dataMatrix'))"

text \<open>
  For the statements about \<^verbatim>\<open>build_data_matrix\<close>: the intensities of a spectrum whose
  mass lies in the closed window of a bracket, and the cell they determine.
\<close>

definition window_intensities :: "spectrum \<Rightarrow> bracket \<Rightarrow> real list" where
  "window_intensities sp b =
     (case b of (mzmin, meanmz, mzmax) \<Rightarrow>
        map snd (filter (\<lambda>(m, i). mzmin \<le> m \<and> m \<le> mzmax) (zip (mz sp) (spint sp))))"

definition window_cell :: "spectrum \<Rightarrow> bracket \<Rightarrow> real option" where
  "window_cell sp b =
     (if window_intensities sp b = [] then None
      else Some (sum_list (window_intensities sp b)))"

section \<open>Blank subtraction (\<^verbatim>\<open>blank_subtraction\<close>)\<close>

text \<open>
  The data matrix \<^verbatim>\<open>dat\<close>: its shape and its cells (\<^term>\<open>None\<close> for \<^verbatim>\<open>nan\<close>).
\<close>

record dmatrix =
  nrows :: nat
  ncols :: nat
  cells :: "nat \<Rightarrow> nat \<Rightarrow> real option"

text \<open>\<^verbatim>\<open>[i for i, group in enumerate(groups) if group == g]\<close>.\<close>

definition group_inds :: "string list \<Rightarrow> string \<Rightarrow> nat list" where
  "group_inds groups g = filter (\<lambda>i. groups ! i = g) [0..<length groups]"

text \<open>\<^verbatim>\<open>dat[inds, featurei]\<close>: raises for a row index beyond the matrix.\<close>

definition take_rows :: "dmatrix \<Rightarrow> nat list \<Rightarrow> nat \<Rightarrow> error + real option list" where
  "take_rows dat inds featurei =
     (if list_all (\<lambda>i. i < nrows dat) inds
      then Inr (map (\<lambda>i. cells dat i featurei) inds)
      else Inl IndexError)"

text \<open>\<^verbatim>\<open>np.sum(~np.isnan(vals))\<close> and \<^verbatim>\<open>vals[~np.isnan(vals)]\<close>.\<close>

definition count_detected :: "real option list \<Rightarrow> int" where
  "count_detected vals = int (length (filter (\<lambda>v. v \<noteq> None) vals))"

definition detected :: "real option list \<Rightarrow> real list" where
  "detected vals = map the (filter (\<lambda>v. v \<noteq> None) vals)"

text \<open>
  \<^verbatim>\<open>np.mean(valsGroup) / np.mean(valsBlanks) >= foldCutoff\<close> as the floating-point
  comparison decides it: the mean of an empty array is \<^verbatim>\<open>nan\<close>; a zero divisor gives
  \<^verbatim>\<open>inf\<close> for a positive dividend and \<^verbatim>\<open>-inf\<close> or \<^verbatim>\<open>nan\<close> otherwise.
\<close>

definition fold_ge :: "real list \<Rightarrow> real list \<Rightarrow> real \<Rightarrow> bool" where
  "fold_ge valsGroup valsBlanks foldCutoff =
     (if valsGroup = [] \<or> valsBlanks = [] then False
      else if np_mean valsBlanks = 0 then 0 < np_mean valsGroup
      else np_mean valsGroup / np_mean valsBlanks \<ge> foldCutoff)"

text \<open>
  One tested group of one feature. \<open>ttest_ind\<close> stands for the p-value of
  \<^verbatim>\<open>scipy.stats.ttest_ind(valsBlanks, valsGroup, equal_var = False,
  alternative = 'two-sided', trim = 0)\<close>, \<^term>\<open>None\<close> for \<^verbatim>\<open>nan\<close>; it is a parameter. The
  two \<^verbatim>\<open>assert\<close> statements are the branches that return \<^term>\<open>AssertionError\<close>.
\<close>

definition test_group ::
  "(real list \<Rightarrow> real list \<Rightarrow> real option) \<Rightarrow> dmatrix \<Rightarrow> string list \<Rightarrow> real \<Rightarrow> real \<Rightarrow> int
     \<Rightarrow> nat \<Rightarrow> bool \<Rightarrow> real list \<Rightarrow> string \<Rightarrow> int list \<Rightarrow> error + int list"
where
  "test_group ttest_ind dat groups foldCutoff pvalueCutoff minDetected
       featurei notInBlanks valsBlanks toTestGroup keeps =
     (case take_rows dat (group_inds groups toTestGroup) featurei of
        Inl e \<Rightarrow> Inl e
      | Inr valsGroup \<Rightarrow>
          if count_detected valsGroup < minDetected then Inr keeps
          else if notInBlanks
          then (if keeps ! featurei \<le> 0
                then Inr (keeps[featurei := keeps ! featurei - 1])
                else Inl AssertionError)
          else
            (let valsGroup' = detected valsGroup;
                 sigInd = ((case ttest_ind valsBlanks valsGroup' of
                              None \<Rightarrow> False
                            | Some pval \<Rightarrow> pval \<le> pvalueCutoff)
                           \<and> fold_ge valsGroup' valsBlanks foldCutoff)
             in if keeps ! featurei \<ge> 0
                then Inr (if sigInd then keeps[featurei := keeps ! featurei + 1] else keeps)
                else Inl AssertionError))"

fun test_groups ::
  "(real list \<Rightarrow> real list \<Rightarrow> real option) \<Rightarrow> dmatrix \<Rightarrow> string list \<Rightarrow> real \<Rightarrow> real \<Rightarrow> int
     \<Rightarrow> nat \<Rightarrow> bool \<Rightarrow> real list \<Rightarrow> string list \<Rightarrow> int list \<Rightarrow> error + int list"
where
  "test_groups ttest_ind dat groups foldCutoff pvalueCutoff minDetected
       featurei notInBlanks valsBlanks [] keeps = Inr keeps"
| "test_groups ttest_ind dat groups foldCutoff pvalueCutoff minDetected
       featurei notInBlanks valsBlanks (toTestGroup # rest) keeps =
     (case test_group ttest_ind dat groups foldCutoff pvalueCutoff minDetected
             featurei notInBlanks valsBlanks toTestGroup keeps of
        Inl e \<Rightarrow> Inl e
      | Inr keeps' \<Rightarrow>
          test_groups ttest_ind dat groups foldCutoff pvalueCutoff minDetected
            featurei notInBlanks valsBlanks rest keeps')"

text \<open>One feature: the body of \<^verbatim>\<open>for featurei in range(dat.shape[1])\<close>.\<close>

definition test_feature ::
  "(real list \<Rightarrow> real list \<Rightarrow> real option) \<Rightarrow> dmatrix \<Rightarrow> string list \<Rightarrow> string \<Rightarrow> string list
     \<Rightarrow> real \<Rightarrow> real \<Rightarrow> int \<Rightarrow> nat \<Rightarrow> int list \<Rightarrow> error + int list"
where
  "test_feature ttest_ind dat groups blankGroup toTestGroups foldCutoff pvalueCutoff minDetected
       featurei keeps =
     (case take_rows dat (group_inds groups blankGroup) featurei of
        Inl e \<Rightarrow> Inl e
      | Inr valsBlanks \<Rightarrow>
          if count_detected (map (\<lambda>i. cells dat i featurei) [0..<nrows dat]) < minDetected
          then Inr keeps
          else
            test_groups ttest_ind dat groups foldCutoff pvalueCutoff minDetected featurei
              (list_all (\<lambda>v. v = None) valsBlanks) (detected valsBlanks) toTestGroups keeps)"

fun test_features ::
  "(real list \<Rightarrow> real list \<Rightarrow> real option) \<Rightarrow> dmatrix \<Rightarrow> string list \<Rightarrow> string \<Rightarrow> string list
     \<Rightarrow> real \<Rightarrow> real \<Rightarrow> int \<Rightarrow> nat list \<Rightarrow> int list \<Rightarrow> error + int list"
where
  "test_features ttest_ind dat groups blankGroup toTestGroups foldCutoff pvalueCutoff minDetected
       [] keeps = Inr keeps"
| "test_features ttest_ind dat groups blankGroup toTestGroups foldCutoff pvalueCutoff minDetected
       (featurei # rest) keeps =
     (case test_feature ttest_ind dat groups blankGroup toTestGroups foldCutoff pvalueCutoff
             minDetected featurei keeps of
        Inl e \<Rightarrow> Inl e
      | Inr keeps' \<Rightarrow>
          test_features ttest_ind dat groups blankGroup toTestGroups foldCutoff pvalueCutoff
            minDetected rest keeps')"

text \<open>
  The counters \<^verbatim>\<open>keeps\<close> after the loop over the features, and the mask
  \<^verbatim>\<open>[k != 0 for k in keeps]\<close> that \<^verbatim>\<open>blank_subtraction\<close> returns. The lists collected for
  the plot and the printed report do not reach the result.
\<close>

definition blank_subtraction_keeps ::
  "(real list \<Rightarrow> real list \<Rightarrow> real option) \<Rightarrow> dmatrix \<Rightarrow> string list \<Rightarrow> string \<Rightarrow> string list
     \<Rightarrow> real \<Rightarrow> real \<Rightarrow> int \<Rightarrow> error + int list"
where
  "blank_subtraction_keeps ttest_ind dat groups blankGroup toTestGroups foldCutoff pvalueCutoff
       minDetected =
     test_features ttest_ind dat groups blankGroup toTestGroups foldCutoff pvalueCutoff
       minDetected [0..<ncols dat] (replicate (ncols dat) 0)"

definition blank_subtraction ::
  "(real list \<Rightarrow> real list \<Rightarrow> real option) \<Rightarrow> dmatrix \<Rightarrow> string list \<Rightarrow> string \<Rightarrow> string list
     \<Rightarrow> real \<Rightarrow> real \<Rightarrow> int \<Rightarrow> error + bool list"
where
  "blank_subtraction ttest_ind dat groups blankGroup toTestGroups foldCutoff pvalueCutoff
       minDetected =
     (case blank_subtraction_keeps ttest_ind dat groups blankGroup toTestGroups foldCutoff
             pvalueCutoff minDetected of
        Inl e \<Rightarrow> Inl e
      | Inr keeps \<Rightarrow> Inr (map (\<lambda>k. k \<noteq> 0) keeps))"

text \<open>
  For the statements about \<^verbatim>\<open>blank_subtraction\<close>: the column \<^verbatim>\<open>dat[:, featurei]\<close> of a
  feature, and the values \<^verbatim>\<open>dat[blankInds, featurei]\<close> of its blank samples.
\<close>

definition column :: "dmatrix \<Rightarrow> nat \<Rightarrow> real option list" where
  "column dat f = map (\<lambda>i. cells dat i f) [0..<nrows dat]"

definition blank_values :: "dmatrix \<Rightarrow> string list \<Rightarrow> string \<Rightarrow> nat \<Rightarrow> real option list" where
  "blank_values dat groups blankGroup f =
     map (\<lambda>i. cells dat i f) (group_inds groups blankGroup)"

section \<open>Notions for the statements about \<^verbatim>\<open>refine_clustering\<close>\<close>

text \<open>
  The positions of a cluster in an assignment, and the masses \<^verbatim>\<open>mzs[clusts == c]\<close> of its
  signals. The ppm spread of a cluster is \<^term>\<open>ppm_dev\<close> of its masses, the expression
  \<^verbatim>\<open>(max - min) / mean * 1E6\<close> of the source.
\<close>

definition positions :: "int list \<Rightarrow> int \<Rightarrow> nat list" where
  "positions clusts c = filter (\<lambda>g. clusts ! g = c) [0..<length clusts]"

definition cluster_mzs :: "real list \<Rightarrow> int list \<Rightarrow> int \<Rightarrow> real list" where
  "cluster_mzs mzs clusts c = map (\<lambda>g. mzs ! g) (positions clusts c)"

text \<open>A cluster respects the bound \<^verbatim>\<open>max_mz_deviation_ppm\<close>, when the bound is set.\<close>

definition spread_ok :: "real list \<Rightarrow> real option \<Rightarrow> int list \<Rightarrow> int \<Rightarrow> bool" where
  "spread_ok mzs mdev cl c =
     (case mdev of
        None \<Rightarrow> True
      | Some b \<Rightarrow> length (cluster_mzs mzs cl c) < 2 \<or> ppm_dev (cluster_mzs mzs cl c) \<le> b)"

text \<open>
  The inputs for which the loops of the refinement are shown to terminate: parallel arrays,
  positive intensities, and masses between 0 and \<open>10\<^sup>6\<close> (so that the penalty \<^verbatim>\<open>1E6\<close>
  keeps every marked signal behind every unmarked one).
\<close>

definition refine_pre :: "real list \<Rightarrow> real list \<Rightarrow> int list \<Rightarrow> bool" where
  "refine_pre mzs intensities clusts =
     (length mzs = length clusts \<and> length intensities = length clusts
      \<and> list_all (\<lambda>x. 0 < x) intensities
      \<and> list_all (\<lambda>x. 0 < x \<and> x < 1000000) mzs)"

text \<open>
  The invariant of the two \<^verbatim>\<open>while\<close> loops for the crude cluster \<open>clust\<close>. \<open>M0\<close> is the
  largest input id and \<open>seen\<close> the set of the crude clusters that are already refined. The
  first part relates the marks \<^verbatim>\<open>used\<close> to the output array; the second part says that
  every new cluster respects the bound.
\<close>

definition rinv0 :: "real list \<Rightarrow> int list \<Rightarrow> int \<Rightarrow> int set \<Rightarrow> int \<Rightarrow> rstate \<Rightarrow> bool" where
  "rinv0 mzs clusts M0 seen clust s =
     (let pos = positions clusts clust; m = length pos; n = length clusts
      in length (used s) = m \<and> length (usedMZs s) = m \<and> length (newClusts s) = n
       \<and> clust \<le> M0 \<and> M0 \<le> maxClust s
       \<and> (\<forall>j<m. used s ! j = 0 \<or> used s ! j = 1 \<or> used s ! j = - 1)
       \<and> (\<forall>j<m. used s ! j = 0 \<longrightarrow> newClusts s ! (pos ! j) = clust)
       \<and> (\<forall>j<m. used s ! j = - 1 \<longrightarrow>
              M0 < newClusts s ! (pos ! j) \<and> newClusts s ! (pos ! j) \<le> maxClust s)
       \<and> (\<forall>j<m. used s ! j = 1 \<longrightarrow>
              newClusts s ! (pos ! j) = maxClust s + 1 \<and> usedMZs s ! j = mzs ! (pos ! j))
       \<and> (\<forall>g<n. clusts ! g \<noteq> clust \<longrightarrow> newClusts s ! g \<le> maxClust s)
       \<and> (\<forall>g<n. newClusts s ! g \<le> M0 \<longrightarrow> newClusts s ! g = clusts ! g)
       \<and> (\<forall>g<n. clusts ! g \<in> seen \<longrightarrow> M0 < newClusts s ! g)
       \<and> (\<forall>g<n. clusts ! g \<notin> seen \<longrightarrow> clusts ! g \<noteq> clust \<longrightarrow> newClusts s ! g = clusts ! g))"

definition rinv ::
  "real list \<Rightarrow> int list \<Rightarrow> real option \<Rightarrow> int \<Rightarrow> int set \<Rightarrow> int \<Rightarrow> rstate \<Rightarrow> bool" where
  "rinv mzs clusts mdev M0 seen clust s =
     (rinv0 mzs clusts M0 seen clust s \<and> (\<forall>c. M0 < c \<longrightarrow> spread_ok mzs mdev (newClusts s) c))"

text \<open>The invariant of the loop over the crude clusters.\<close>

definition finv ::
  "real list \<Rightarrow> int list \<Rightarrow> real option \<Rightarrow> int \<Rightarrow> int set \<Rightarrow> int list \<Rightarrow> int \<Rightarrow> bool" where
  "finv mzs clusts mdev M0 seen nc mc =
     (let n = length clusts
      in length nc = n \<and> M0 \<le> mc
       \<and> (\<forall>g<n. nc ! g \<le> mc + 1)
       \<and> (\<forall>g<n. nc ! g \<le> M0 \<longrightarrow> nc ! g = clusts ! g)
       \<and> (\<forall>g<n. clusts ! g \<in> seen \<longrightarrow> M0 < nc ! g)
       \<and> (\<forall>g<n. clusts ! g \<notin> seen \<longrightarrow> nc ! g = clusts ! g)
       \<and> (\<forall>c. M0 < c \<longrightarrow> spread_ok mzs mdev nc c))"

text \<open>
  The part of the invariant that holds on every input with ids that are not negative: the
  output array keeps its length, holds no negative id, and the next fresh id is not negative.
\<close>

definition labelled :: "nat \<Rightarrow> rstate \<Rightarrow> bool" where
  "labelled n s =
     (length (newClusts s) = n \<and> list_all (\<lambda>c. 0 \<le> c) (newClusts s) \<and> - 1 \<le> maxClust s)"

section \<open>Facts about the primitives\<close>

lemma mset_argsort: "mset (argsort xs) = mset [0..<length xs]"
  by (simp add: argsort_def)

lemma length_argsort: "length (argsort xs) = length xs"
  by (simp add: argsort_def)

lemma set_argsort: "set (argsort xs) = {0..<length xs}"
  by (simp add: argsort_def)

lemma distinct_argsort: "distinct (argsort xs)"
  by (simp add: argsort_def)

lemma sorted_argsort: "sorted (map (\<lambda>i. xs ! i) (argsort xs))"
  by (simp add: argsort_def)

lemma argsort_nth_less: "r < length xs \<Longrightarrow> argsort xs ! r < length xs"
  using set_argsort[of xs] length_argsort[of xs] nth_mem[of r "argsort xs"] by auto

text \<open>\<^verbatim>\<open>np.argsort(np.argsort(xs))\<close> inverts the sorting permutation.\<close>

lemma argsort_argsort_inverse:
  assumes "r < length xs"
  shows "argsort (argsort xs) ! (argsort xs ! r) = r"
proof -
  let ?ord = "argsort xs"
  let ?inv = "argsort ?ord"
  let ?n = "length xs"
  have len: "length ?inv = ?n" by (simp add: length_argsort)
  have "mset (map (\<lambda>i. ?ord ! i) ?inv) = image_mset (\<lambda>i. ?ord ! i) (mset ?inv)"
    by (rule mset_map)
  also have "\<dots> = image_mset (\<lambda>i. ?ord ! i) (mset [0..<length ?ord])"
    by (simp only: mset_argsort)
  also have "\<dots> = mset (map (\<lambda>i. ?ord ! i) [0..<length ?ord])"
    by (rule mset_map[symmetric])
  also have "\<dots> = mset ?ord" by (simp only: map_nth)
  also have "\<dots> = mset [0..<?n]" by (rule mset_argsort)
  finally have m: "mset (map (\<lambda>i. ?ord ! i) ?inv) = mset [0..<?n]" .
  have "sorted (map (\<lambda>i. ?ord ! i) ?inv)" by (rule sorted_argsort)
  with m have "sort [0..<?n] = map (\<lambda>i. ?ord ! i) ?inv"
    by (metis properties_for_sort)
  then have eq: "map (\<lambda>i. ?ord ! i) ?inv = [0..<?n]"
    by (simp add: sorted_sort_id)
  have k: "?ord ! r < ?n" using assms by (rule argsort_nth_less)
  have "map (\<lambda>i. ?ord ! i) ?inv ! (?ord ! r) = ?ord ! r" using eq k by simp
  then have "?ord ! (?inv ! (?ord ! r)) = ?ord ! r" using k len by simp
  moreover have "?inv ! (?ord ! r) < length ?ord"
    using argsort_nth_less[of "?ord ! r" ?ord] k by (simp add: length_argsort)
  ultimately show ?thesis
    using distinct_argsort[of xs] assms
    by (simp add: nth_eq_iff_index_eq length_argsort)
qed

lemma np_max_eq_Max: "xs \<noteq> [] \<Longrightarrow> np_max xs = Max (set xs)"
  by (cases xs) (simp_all add: np_max_def Max.set_eq_fold[symmetric] del: set_simps)

lemma np_min_eq_Min: "xs \<noteq> [] \<Longrightarrow> np_min xs = Min (set xs)"
  by (cases xs) (simp_all add: np_min_def Min.set_eq_fold[symmetric] del: set_simps)

lemma np_max_in: "xs \<noteq> [] \<Longrightarrow> np_max xs \<in> set xs"
  by (simp add: np_max_eq_Max)

lemma np_min_in: "xs \<noteq> [] \<Longrightarrow> np_min xs \<in> set xs"
  by (simp add: np_min_eq_Min)

lemma np_max_ge: "x \<in> set xs \<Longrightarrow> x \<le> np_max xs"
  by (cases "xs = []") (simp_all add: np_max_eq_Max)

lemma np_min_le: "x \<in> set xs \<Longrightarrow> np_min xs \<le> x"
  by (cases "xs = []") (simp_all add: np_min_eq_Min)

lemma first_index_props:
  assumes "v \<in> set xs"
  shows "length (takeWhile (\<lambda>x. x \<noteq> v) xs) < length xs"
    and "xs ! length (takeWhile (\<lambda>x. x \<noteq> v) xs) = v"
proof -
  have "takeWhile (\<lambda>x. x \<noteq> v) xs \<noteq> xs"
    using assms by auto
  then show l: "length (takeWhile (\<lambda>x. x \<noteq> v) xs) < length xs"
    using length_takeWhile_le[of "\<lambda>x. x \<noteq> v" xs]
    by (metis le_neq_implies_less takeWhile_eq_take take_all order_refl)
  from nth_length_takeWhile[OF l] show "xs ! length (takeWhile (\<lambda>x. x \<noteq> v) xs) = v"
    by simp
qed

lemma np_argmax_props:
  assumes "xs \<noteq> []"
  shows "np_argmax xs < length xs" and "xs ! np_argmax xs = np_max xs"
  using first_index_props[OF np_max_in[OF assms]] by (simp_all add: np_argmax_def)

lemma np_argmin_props:
  assumes "xs \<noteq> []"
  shows "np_argmin xs < length xs" and "xs ! np_argmin xs = np_min xs"
  using first_index_props[OF np_min_in[OF assms]] by (simp_all add: np_argmin_def)

lemma filter_by_index: "map (\<lambda>j. xs ! j) (filter (\<lambda>j. Q (xs ! j)) [0..<length xs]) = filter Q xs"
proof -
  have "filter Q (map (\<lambda>j. xs ! j) [0..<length xs])
        = map (\<lambda>j. xs ! j) (filter (Q \<circ> (\<lambda>j. xs ! j)) [0..<length xs])"
    by (rule filter_map)
  then show ?thesis by (simp add: map_nth o_def)
qed

lemma np_where_map: "np_where (map P xs) = filter (\<lambda>i. P (xs ! i)) [0..<length xs]"
  by (auto simp: np_where_def intro: filter_cong)

lemma mask_select_by_index:
  assumes "length xs = length us"
  shows "mask_select xs (map P us) = map (\<lambda>j. xs ! j) (filter (\<lambda>j. P (us ! j)) [0..<length us])"
proof -
  let ?zs = "zip xs us"
  have "mask_select xs (map P us) = map fst (filter (\<lambda>(x, u). P u) ?zs)"
    by (simp add: mask_select_def zip_map2 filter_map o_def case_prod_unfold)
  also have "filter (\<lambda>(x, u). P u) ?zs
      = map (\<lambda>j. ?zs ! j) (filter (\<lambda>j. (\<lambda>(x, u). P u) (?zs ! j)) [0..<length ?zs])"
    by (rule filter_by_index[symmetric])
  also have "map fst \<dots> = map (\<lambda>j. xs ! j) (filter (\<lambda>j. P (us ! j)) [0..<length us])"
    using assms by (auto simp: o_def intro!: map_cong filter_cong)
  finally show ?thesis .
qed

lemma filter_single_index: "p < n \<Longrightarrow> filter (\<lambda>g. g = p) [0..<n] = [p]"
proof (induction n)
  case 0
  then show ?case by simp
next
  case (Suc n)
  show ?case
  proof (cases "p = n")
    case True
    have "filter (\<lambda>g. g = n) [0..<n] = []" by (auto simp: filter_empty_conv)
    then show ?thesis using True by simp
  next
    case False
    then have "p < n" using Suc.prems by simp
    from Suc.IH[OF this] False show ?thesis by simp
  qed
qed

lemma sorted_distinct_upto:
  assumes "sorted xs" "distinct xs" "set xs = int ` {0..<k}"
  shows "xs = map int [0..<k]"
proof (rule sorted_distinct_set_unique[OF assms(1,2)])
  show "sorted (map int [0..<k])" by (simp add: sorted_map sorted_wrt_iff_nth_less)
  show "distinct (map int [0..<k])" by (simp add: distinct_map)
  show "set xs = set (map int [0..<k])" using assms(3) by simp
qed



section \<open>Properties of \<^verbatim>\<open>reindex_cluster\<close>\<close>

text \<open>
  The output id of a position is the rank of its input id: the number of distinct input
  ids below it.
\<close>

lemma length_mask_assign:
  "length m = length xs \<Longrightarrow> length (mask_assign xs m v) = length xs"
  by (simp add: mask_assign_def)

lemma mask_assign_nth:
  "i < length xs \<Longrightarrow> length m = length xs \<Longrightarrow>
   mask_assign xs m v ! i = (if m ! i then v else xs ! i)"
  by (simp add: mask_assign_def)

lemma reindex_loop_length:
  "length nc = length c \<Longrightarrow> length (reindex_loop c us nc use) = length c"
  by (induction us arbitrary: nc use) (simp_all add: length_mask_assign)

lemma reindex_loop_nth:
  "sorted us \<Longrightarrow> distinct us \<Longrightarrow> length nc = length c \<Longrightarrow> i < length c \<Longrightarrow>
   reindex_loop c us nc use ! i =
     (if c ! i \<in> set us then use + int (card {x \<in> set us. x < c ! i}) else nc ! i)"
proof (induction us arbitrary: nc use)
  case Nil
  then show ?case by simp
next
  case (Cons u rest)
  let ?nc = "mask_assign nc (map (\<lambda>x. x = u) c) use"
  have len: "length ?nc = length c" using Cons.prems by (simp add: length_mask_assign)
  have lt: "\<forall>x\<in>set rest. u < x" using Cons.prems(1,2) by (auto simp: less_le)
  have IH: "reindex_loop c rest ?nc (use + 1) ! i =
     (if c ! i \<in> set rest then use + 1 + int (card {x \<in> set rest. x < c ! i}) else ?nc ! i)"
    using Cons.IH[of ?nc "use + 1"] Cons.prems len by simp
  have nci: "?nc ! i = (if c ! i = u then use else nc ! i)"
    using Cons.prems by (simp add: mask_assign_nth)
  show ?case
  proof (cases "c ! i \<in> set rest")
    case True
    then have "u < c ! i" using lt by auto
    then have "{x \<in> set (u # rest). x < c ! i} = insert u {x \<in> set rest. x < c ! i}"
      by auto
    moreover have "u \<notin> {x \<in> set rest. x < c ! i}" using Cons.prems(2) by simp
    ultimately have "card {x \<in> set (u # rest). x < c ! i} = Suc (card {x \<in> set rest. x < c ! i})"
      by simp
    then show ?thesis using True IH by simp
  next
    case False
    show ?thesis
    proof (cases "c ! i = u")
      case True
      have "{x \<in> set (u # rest). x < u} = {}" using lt by auto
      then show ?thesis using True False IH nci by simp
    next
      case F2: False
      then show ?thesis using False IH nci by simp
    qed
  qed
qed

lemma reindex_cluster_nth:
  assumes "i < length c"
  shows "reindex_cluster c ! i = int (card {x \<in> set c. x < c ! i})"
proof -
  have "c ! i \<in> set (np_unique c)" using assms by (simp add: np_unique_def)
  moreover have "sorted (np_unique c)" "distinct (np_unique c)"
    by (simp_all add: np_unique_def)
  ultimately show ?thesis
    unfolding reindex_cluster_def
    using reindex_loop_nth[of "np_unique c" "replicate (length c) 0" c i 0] assms
    by (simp add: np_unique_def)
qed

lemma length_reindex_cluster: "length (reindex_cluster c) = length c"
  by (simp add: reindex_cluster_def reindex_loop_length)

lemma rank_strict_mono:
  fixes S :: "int set"
  assumes "finite S" "a \<in> S" "b \<in> S" "a < b"
  shows "card {x \<in> S. x < a} < card {x \<in> S. x < b}"
proof (rule psubset_card_mono)
  show "finite {x \<in> S. x < b}" using assms by simp
  show "{x \<in> S. x < a} \<subset> {x \<in> S. x < b}" using assms by auto
qed

lemma rank_eq_iff:
  fixes S :: "int set"
  assumes "finite S" "a \<in> S" "b \<in> S"
  shows "(card {x \<in> S. x < a} = card {x \<in> S. x < b}) = (a = b)"
  using rank_strict_mono[OF assms(1,2,3)] rank_strict_mono[OF assms(1,3,2)]
  by (cases a b rule: linorder_cases) auto

lemma rank_image:
  fixes S :: "int set"
  assumes "finite S"
  shows "(\<lambda>a. card {x \<in> S. x < a}) ` S = {0..<card S}"
proof (rule card_subset_eq)
  show "finite {0..<card S}" by simp
  show "(\<lambda>a. card {x \<in> S. x < a}) ` S \<subseteq> {0..<card S}"
  proof
    fix r assume "r \<in> (\<lambda>a. card {x \<in> S. x < a}) ` S"
    then obtain a where a: "a \<in> S" "r = card {x \<in> S. x < a}" by auto
    have "{x \<in> S. x < a} \<subset> S" using a by auto
    then have "card {x \<in> S. x < a} < card S" using assms by (simp add: psubset_card_mono)
    then show "r \<in> {0..<card S}" using a by simp
  qed
  have "inj_on (\<lambda>a. card {x \<in> S. x < a}) S"
    by (rule inj_onI) (simp add: rank_eq_iff[OF assms])
  then show "card ((\<lambda>a. card {x \<in> S. x < a}) ` S) = card {0..<card S}"
    by (simp add: card_image)
qed

lemma set_reindex_cluster:
  "set (reindex_cluster c) = int ` {0..<card (set c)}"
proof -
  have "set (reindex_cluster c) = (\<lambda>i. reindex_cluster c ! i) ` {0..<length c}"
    using length_reindex_cluster[of c] by (metis atLeast0LessThan nth_image take_all order_refl)
  also have "\<dots> = (\<lambda>i. int (card {x \<in> set c. x < c ! i})) ` {0..<length c}"
    by (rule image_cong) (simp_all add: reindex_cluster_nth)
  also have "\<dots> = int ` (\<lambda>a. card {x \<in> set c. x < a}) ` ((\<lambda>i. c ! i) ` {0..<length c})"
    by (simp add: image_image)
  also have "(\<lambda>i. c ! i) ` {0..<length c} = set c"
    by (metis atLeast0LessThan nth_image take_all order_refl)
  finally show ?thesis by (simp add: rank_image)
qed

text \<open>
  Claim C9. For every cluster-id array, \<^verbatim>\<open>reindex_cluster\<close> returns a dense relabeling
  \<open>0..k-1\<close>, where \<open>k\<close> is the number of distinct input ids: two positions share an
  output id iff they shared an input id, a smaller input id gets a smaller output id, and
  the sentinel \<open>-1\<close> is relabelled like any other id (to \<open>0\<close>, the lowest output id, when
  no id is below it). The array \<open>[0,0,0,1,2,4,4,4,5,6]\<close> becomes \<open>[0,0,0,1,2,3,3,3,4,5]\<close>.
\<close>

theorem reindex_cluster_dense_order_preserving:
  "length (reindex_cluster c) = length c
   \<and> set (reindex_cluster c) = int ` {0..<card (set c)}
   \<and> (\<forall>i<length c. \<forall>j<length c.
         (reindex_cluster c ! i = reindex_cluster c ! j) = (c ! i = c ! j))
   \<and> (\<forall>i<length c. \<forall>j<length c.
         c ! i < c ! j \<longrightarrow> reindex_cluster c ! i < reindex_cluster c ! j)
   \<and> (\<forall>i<length c. (\<forall>x\<in>set c. - 1 \<le> x) \<longrightarrow> c ! i = - 1 \<longrightarrow> reindex_cluster c ! i = 0)
   \<and> reindex_cluster [0,0,0,1,2,4,4,4,5,6] = [0,0,0,1,2,3,3,3,4,5]"
proof (intro conjI allI impI)
  show "length (reindex_cluster c) = length c" by (rule length_reindex_cluster)
  show "set (reindex_cluster c) = int ` {0..<card (set c)}" by (rule set_reindex_cluster)
next
  fix i j assume "i < length c" "j < length c"
  then show "(reindex_cluster c ! i = reindex_cluster c ! j) = (c ! i = c ! j)"
    by (simp add: reindex_cluster_nth rank_eq_iff)
next
  fix i j assume "i < length c" "j < length c" "c ! i < c ! j"
  then show "reindex_cluster c ! i < reindex_cluster c ! j"
    by (simp add: reindex_cluster_nth rank_strict_mono)
next
  fix i assume i: "i < length c" and lo: "\<forall>x\<in>set c. - 1 \<le> x" and m: "c ! i = - 1"
  have "{x \<in> set c. x < - 1} = {}" using lo by auto
  then show "reindex_cluster c ! i = 0" using i m by (simp add: reindex_cluster_nth)
next
  show "reindex_cluster [0,0,0,1,2,4,4,4,5,6] = [0,0,0,1,2,3,3,3,4,5]"
    by (simp add: reindex_cluster_def np_unique_def mask_assign_def)
qed

theorem reindex_cluster_witness:
  "length (reindex_cluster [3, - 1, 7, - 1]) = 4
   \<and> set (reindex_cluster [3, - 1, 7, - 1]) = {0, 1, 2}
   \<and> reindex_cluster [3, - 1, 7, - 1] ! 1 = reindex_cluster [3, - 1, 7, - 1] ! 3
   \<and> reindex_cluster [3, - 1, 7, - 1] ! 0 < reindex_cluster [3, - 1, 7, - 1] ! 2
   \<and> reindex_cluster [3, - 1, 7, - 1] ! 1 = 0"
proof -
  have e: "reindex_cluster [3, - 1, 7, - 1] = [1, 0, 2, 0]"
    by (simp add: reindex_cluster_def np_unique_def mask_assign_def)
  have c: "card (set [3, - 1, 7, - 1 :: int]) = 3" by (simp add: card_insert_if)
  have s: "int ` {0..<3} = {0, 1, 2}" by (auto simp: image_iff)
  from reindex_cluster_dense_order_preserving[of "[3, - 1, 7, - 1]"]
  have "set (reindex_cluster [3, - 1, 7, - 1]) = {0, 1, 2}"
    unfolding c s by blast
  then show ?thesis unfolding e by simp
qed

section \<open>Properties of \<^verbatim>\<open>crude_cluster_mz_list\<close>\<close>

lemma cumsum_from_length: "length (cumsum_from a bs) = length bs"
  by (induction bs arbitrary: a) simp_all

lemma cumsum_from_step:
  "r < length bs \<Longrightarrow>
   (a # cumsum_from a bs) ! Suc r = (a # cumsum_from a bs) ! r + of_bool (bs ! r)"
proof (induction bs arbitrary: a r)
  case Nil
  then show ?case by simp
next
  case (Cons b bs)
  show ?case
  proof (cases r)
    case 0
    then show ?thesis by simp
  next
    case (Suc q)
    then have "q < length bs" using Cons.prems by simp
    from Cons.IH[OF this, of "a + of_bool b"] show ?thesis using Suc by simp
  qed
qed

lemma cumsum_from_lower: "r \<le> length bs \<Longrightarrow> a \<le> (a # cumsum_from a bs) ! r"
proof (induction r)
  case 0
  then show ?case by simp
next
  case (Suc r)
  then have "r < length bs" by simp
  from cumsum_from_step[OF this, of a] Suc show ?case by simp
qed

text \<open>The ids along the mass-sorted order: the id of the \<open>r\<close>-th lightest signal is the
  number of gaps above the threshold among the first \<open>r\<close> gaps.\<close>

lemma crude_cluster_sorted_ids:
  assumes "length ms \<le> length intensity"
  shows "\<exists>clust cl. crude_cluster_mz_list ms intensity t = Inr clust
     \<and> length clust = length ms
     \<and> length cl = length ms + (if ms = [] then 1 else 0)
     \<and> (\<forall>r<length ms. clust ! (argsort ms ! r) = cl ! r \<and> 0 \<le> cl ! r)
     \<and> (\<forall>r. Suc r < length ms \<longrightarrow>
           cl ! Suc r = cl ! r +
             of_bool (ppm_gt (ms ! (argsort ms ! Suc r) - ms ! (argsort ms ! r))
                        (ms ! (argsort ms ! r)) t))"
proof -
  let ?ord = "argsort ms"
  let ?n = "length ms"
  let ?mz' = "map (\<lambda>i. ms ! i) ?ord"
  let ?gaps = "map2 (\<lambda>hi lo. ppm_gt (hi - lo) lo t) (drop 1 ?mz') (take (?n - 1) ?mz')"
  let ?cl = "0 # np_cumsum ?gaps"
  let ?clust = "map (\<lambda>i. ?cl ! i) (argsort ?ord)"
  have e: "crude_cluster_mz_list ms intensity t = Inr ?clust"
    using assms by (simp add: crude_cluster_mz_list_def Let_def)
  have lg: "length ?gaps = ?n - 1" by (simp add: length_argsort)
  have lcl: "length ?cl = ?n + (if ms = [] then 1 else 0)"
    using lg by (cases ms) (simp_all add: np_cumsum_def cumsum_from_length)
  have lc: "length ?clust = ?n" by (simp add: length_argsort)
  have ids: "\<forall>r<?n. ?clust ! (?ord ! r) = ?cl ! r \<and> 0 \<le> ?cl ! r"
  proof (intro allI impI)
    fix r assume r: "r < ?n"
    have k: "?ord ! r < ?n" using r by (rule argsort_nth_less)
    have "?clust ! (?ord ! r) = ?cl ! (argsort ?ord ! (?ord ! r))"
      using k by (simp add: length_argsort)
    then have 1: "?clust ! (?ord ! r) = ?cl ! r"
      using argsort_argsort_inverse[OF r] by simp
    have "r \<le> length ?gaps" using r lg by simp
    then have "0 \<le> ?cl ! r"
      unfolding np_cumsum_def by (rule cumsum_from_lower)
    with 1 show "?clust ! (?ord ! r) = ?cl ! r \<and> 0 \<le> ?cl ! r" by simp
  qed
  have step: "\<forall>r. Suc r < ?n \<longrightarrow>
           ?cl ! Suc r = ?cl ! r +
             of_bool (ppm_gt (ms ! (?ord ! Suc r) - ms ! (?ord ! r)) (ms ! (?ord ! r)) t)"
  proof (intro allI impI)
    fix r assume r: "Suc r < ?n"
    then have rg: "r < length ?gaps" using lg by simp
    have g: "?gaps ! r = ppm_gt (ms ! (?ord ! Suc r) - ms ! (?ord ! r)) (ms ! (?ord ! r)) t"
      using r by (simp add: length_argsort)
    from cumsum_from_step[OF rg, of 0] g
    show "?cl ! Suc r = ?cl ! r +
             of_bool (ppm_gt (ms ! (?ord ! Suc r) - ms ! (?ord ! r)) (ms ! (?ord ! r)) t)"
      by (simp add: np_cumsum_def)
  qed
  show ?thesis using e lc lcl ids step by blast
qed

text \<open>
  Claim C8. For every non-empty \<^verbatim>\<open>mz\<close> array \<^verbatim>\<open>crude_cluster_mz_list\<close> returns one
  non-negative cluster id per signal, at the position of the signal in the unsorted input,
  such that two signals adjacent in the mass-sorted order \<^verbatim>\<open>argsort mz\<close> get the same id iff
  the gap \<^verbatim>\<open>(mz[i]-mz[i-1])/mz[i-1]*1e6\<close> between them does not exceed
  \<^verbatim>\<open>min_difference_ppm\<close>; no signal is left out. (The intensity array is at least as long
  as the mass array, and the masses are positive.)
\<close>

theorem crude_cluster_mz_list_gaps:
  assumes "ms \<noteq> []" and "length ms \<le> length intensity" and "\<forall>x\<in>set ms. 0 < x"
  shows "\<exists>clust. crude_cluster_mz_list ms intensity min_difference_ppm = Inr clust
     \<and> length clust = length ms
     \<and> (\<forall>i<length ms. 0 \<le> clust ! i)
     \<and> mset (argsort ms) = mset [0..<length ms]
     \<and> sorted (map (\<lambda>i. ms ! i) (argsort ms))
     \<and> (\<forall>r. Suc r < length ms \<longrightarrow>
           (clust ! (argsort ms ! Suc r) = clust ! (argsort ms ! r))
             = ((ms ! (argsort ms ! Suc r) - ms ! (argsort ms ! r)) / ms ! (argsort ms ! r)
                  * 1000000 \<le> min_difference_ppm))"
proof -
  let ?ord = "argsort ms"
  let ?n = "length ms"
  from crude_cluster_sorted_ids[OF assms(2), of min_difference_ppm] obtain clust cl where c:
    "crude_cluster_mz_list ms intensity min_difference_ppm = Inr clust"
    "length clust = ?n"
    "\<forall>r<?n. clust ! (?ord ! r) = cl ! r \<and> 0 \<le> cl ! r"
    "\<forall>r. Suc r < ?n \<longrightarrow>
           cl ! Suc r = cl ! r +
             of_bool (ppm_gt (ms ! (?ord ! Suc r) - ms ! (?ord ! r)) (ms ! (?ord ! r))
                        min_difference_ppm)"
    by blast
  have nonneg: "\<forall>i<?n. 0 \<le> clust ! i"
  proof (intro allI impI)
    fix i assume "i < ?n"
    then have "i \<in> set ?ord" by (simp add: set_argsort)
    then obtain r where "r < ?n" "?ord ! r = i"
      by (auto simp: in_set_conv_nth length_argsort)
    then show "0 \<le> clust ! i" using c(3) by auto
  qed
  have gaps: "\<forall>r. Suc r < ?n \<longrightarrow>
           (clust ! (?ord ! Suc r) = clust ! (?ord ! r))
             = ((ms ! (?ord ! Suc r) - ms ! (?ord ! r)) / ms ! (?ord ! r) * 1000000
                  \<le> min_difference_ppm)"
  proof (intro allI impI)
    fix r assume r: "Suc r < ?n"
    then have "?ord ! r < ?n" by (simp add: argsort_nth_less)
    then have "0 < ms ! (?ord ! r)" using assms(3) by simp
    then have g: "ppm_gt (ms ! (?ord ! Suc r) - ms ! (?ord ! r)) (ms ! (?ord ! r)) min_difference_ppm
       = (\<not> (ms ! (?ord ! Suc r) - ms ! (?ord ! r)) / ms ! (?ord ! r) * 1000000
                  \<le> min_difference_ppm)"
      by (simp add: ppm_gt_def not_le)
    have "clust ! (?ord ! Suc r) = cl ! Suc r" "clust ! (?ord ! r) = cl ! r"
      using c(3) r by simp_all
    then show "(clust ! (?ord ! Suc r) = clust ! (?ord ! r))
             = ((ms ! (?ord ! Suc r) - ms ! (?ord ! r)) / ms ! (?ord ! r) * 1000000
                  \<le> min_difference_ppm)"
      using c(4) r g by (simp add: of_bool_def)
  qed
  show ?thesis
    using c(1,2) nonneg gaps mset_argsort[of ms] sorted_argsort[of ms] by blast
qed

theorem crude_cluster_mz_list_gaps_witness:
  "[200, 100001 / 1000, 100, 300] \<noteq> ([] :: real list)
   \<and> length [200, 100001 / 1000, 100, 300 :: real] \<le> length [1, 1, 1, 1 :: real]
   \<and> list_all (\<lambda>x. 0 < x) [200, 100001 / 1000, 100, 300 :: real]
   \<and> crude_cluster_mz_list [200, 100001 / 1000, 100, 300] [1, 1, 1, 1] 30 = Inr [1, 0, 0, 2]
   \<and> argsort [200, 100001 / 1000, 100, 300 :: real] = [2, 1, 0, 3]"
proof -
  have h1: "[200, 100001 / 1000, 100, 300] \<noteq> ([] :: real list)" by simp
  have h2: "length [200, 100001 / 1000, 100, 300 :: real] \<le> length [1, 1, 1, 1 :: real]" by simp
  have h3: "\<forall>x\<in>set [200, 100001 / 1000, 100, 300 :: real]. 0 < x" by simp
  have e: "crude_cluster_mz_list [200, 100001 / 1000, 100, 300] [1, 1, 1, 1] 30 = Inr [1, 0, 0, 2]"
    by code_simp
  have a: "argsort [200, 100001 / 1000, 100, 300 :: real] = [2, 1, 0, 3]" by code_simp
  from crude_cluster_mz_list_gaps[OF h1 h2 h3, of 30]
  obtain clust where "crude_cluster_mz_list [200, 100001 / 1000, 100, 300] [1, 1, 1, 1] 30 = Inr clust"
    by blast
  then show ?thesis using e a by simp
qed


section \<open>Properties of \<^verbatim>\<open>blank_subtraction\<close>\<close>

lemma take_rows_group_inds:
  "length groups \<le> nrows dat \<Longrightarrow>
   take_rows dat (group_inds groups g) f = Inr (map (\<lambda>i. cells dat i f) (group_inds groups g))"
  by (auto simp: take_rows_def group_inds_def list_all_iff)

lemma take_rows_Inl: "take_rows dat inds f = Inl e \<Longrightarrow> e = IndexError"
  by (auto simp: take_rows_def split: if_splits)

lemma take_rows_Inr: "take_rows dat inds f = Inr vs \<Longrightarrow> vs = map (\<lambda>i. cells dat i f) inds"
  by (auto simp: take_rows_def split: if_splits)

text \<open>One tested group: the counter of the feature moves in the direction of its path, the
  assertion of that path holds, and no other counter changes.\<close>

lemma test_group_Inr:
  assumes "test_group tt dat groups fc pc md f nib vb g keeps = Inr keeps'"
  shows "length keeps' = length keeps"
    and "\<forall>h. h \<noteq> f \<longrightarrow> keeps' ! h = keeps ! h"
    and "nib \<Longrightarrow> f < length keeps \<Longrightarrow> keeps' ! f \<le> keeps ! f"
    and "\<not> nib \<Longrightarrow> f < length keeps \<Longrightarrow> keeps ! f \<le> keeps' ! f"
  using assms
  by (auto simp: test_group_def Let_def split: sum.splits if_splits)

lemma test_group_Inl:
  assumes "test_group tt dat groups fc pc md f nib vb g keeps = Inl e"
    and "if nib then keeps ! f \<le> 0 else 0 \<le> keeps ! f"
  shows "e = IndexError \<and> \<not> length groups \<le> nrows dat"
  using assms
  by (auto simp: test_group_def Let_def take_rows_group_inds dest: take_rows_Inl
        split: sum.splits if_splits)

lemma test_groups_Inr:
  assumes "test_groups tt dat groups fc pc md f nib vb gs keeps = Inr keeps'"
  shows "length keeps' = length keeps
     \<and> (\<forall>h. h \<noteq> f \<longrightarrow> keeps' ! h = keeps ! h)
     \<and> (nib \<longrightarrow> f < length keeps \<longrightarrow> keeps' ! f \<le> keeps ! f)
     \<and> (\<not> nib \<longrightarrow> f < length keeps \<longrightarrow> keeps ! f \<le> keeps' ! f)"
  using assms
proof (induction gs arbitrary: keeps)
  case Nil
  then show ?case by simp
next
  case (Cons g gs)
  from Cons.prems obtain k1 where
    s: "test_group tt dat groups fc pc md f nib vb g keeps = Inr k1" and
    r: "test_groups tt dat groups fc pc md f nib vb gs k1 = Inr keeps'"
    by (auto split: sum.splits)
  note a = test_group_Inr[OF s]
  note b = Cons.IH[OF r]
  show ?case using a b by (metis order_trans)
qed

lemma test_groups_Inl:
  assumes "test_groups tt dat groups fc pc md f nib vb gs keeps = Inl e"
    and "if nib then keeps ! f \<le> 0 else 0 \<le> keeps ! f"
    and "f < length keeps"
  shows "e = IndexError \<and> \<not> length groups \<le> nrows dat"
  using assms
proof (induction gs arbitrary: keeps)
  case Nil
  then show ?case by simp
next
  case (Cons g gs)
  show ?case
  proof (cases "test_group tt dat groups fc pc md f nib vb g keeps")
    case (Inl e')
    then have "e' = e" using Cons.prems(1) by simp
    then show ?thesis using test_group_Inl[OF Inl Cons.prems(2)] by simp
  next
    case (Inr k1)
    then have r: "test_groups tt dat groups fc pc md f nib vb gs k1 = Inl e"
      using Cons.prems(1) by simp
    note a = test_group_Inr[OF Inr]
    have "if nib then k1 ! f \<le> 0 else 0 \<le> k1 ! f"
      using a(3,4) Cons.prems(2,3) by (cases nib) auto
    moreover have "f < length k1" using a(1) Cons.prems(3) by simp
    ultimately show ?thesis using Cons.IH[OF r] by simp
  qed
qed

lemma test_feature_Inr:
  assumes "test_feature tt dat groups bg gs fc pc md f keeps = Inr keeps'"
  shows "length keeps' = length keeps"
    and "\<forall>h. h \<noteq> f \<longrightarrow> keeps' ! h = keeps ! h"
    and "count_detected (column dat f) < md \<Longrightarrow> keeps' = keeps"
    and "f < length keeps \<Longrightarrow> count_detected (blank_values dat groups bg f) = 0 \<Longrightarrow>
         keeps' ! f \<le> keeps ! f"
    and "f < length keeps \<Longrightarrow> count_detected (blank_values dat groups bg f) \<noteq> 0 \<Longrightarrow>
         keeps ! f \<le> keeps' ! f"
proof -
  from assms obtain vb where vb: "take_rows dat (group_inds groups bg) f = Inr vb"
    by (auto simp: test_feature_def split: sum.splits)
  then have vbe: "vb = blank_values dat groups bg f"
    by (simp add: blank_values_def take_rows_Inr)
  have nib: "list_all (\<lambda>v. v = None) vb = (count_detected vb = 0)"
    by (auto simp: count_detected_def list_all_iff filter_empty_conv)
  consider (skip) "count_detected (column dat f) < md" "keeps' = keeps"
    | (run) "\<not> count_detected (column dat f) < md"
        "test_groups tt dat groups fc pc md f (list_all (\<lambda>v. v = None) vb) (detected vb) gs keeps
           = Inr keeps'"
    using assms vb by (auto simp: test_feature_def column_def split: if_splits)
  then have "length keeps' = length keeps
    \<and> (\<forall>h. h \<noteq> f \<longrightarrow> keeps' ! h = keeps ! h)
    \<and> (count_detected (column dat f) < md \<longrightarrow> keeps' = keeps)
    \<and> (f < length keeps \<longrightarrow> count_detected (blank_values dat groups bg f) = 0 \<longrightarrow>
         keeps' ! f \<le> keeps ! f)
    \<and> (f < length keeps \<longrightarrow> count_detected (blank_values dat groups bg f) \<noteq> 0 \<longrightarrow>
         keeps ! f \<le> keeps' ! f)"
  proof cases
    case skip
    then show ?thesis by simp
  next
    case run
    from test_groups_Inr[OF run(2)] run(1) show ?thesis
      using nib vbe by auto
  qed
  then show "length keeps' = length keeps"
    and "\<forall>h. h \<noteq> f \<longrightarrow> keeps' ! h = keeps ! h"
    and "count_detected (column dat f) < md \<Longrightarrow> keeps' = keeps"
    and "f < length keeps \<Longrightarrow> count_detected (blank_values dat groups bg f) = 0 \<Longrightarrow>
         keeps' ! f \<le> keeps ! f"
    and "f < length keeps \<Longrightarrow> count_detected (blank_values dat groups bg f) \<noteq> 0 \<Longrightarrow>
         keeps ! f \<le> keeps' ! f"
    by auto
qed

lemma test_feature_Inl:
  assumes "test_feature tt dat groups bg gs fc pc md f keeps = Inl e"
    and "keeps ! f = 0" and "f < length keeps"
  shows "e = IndexError \<and> \<not> length groups \<le> nrows dat"
proof (cases "take_rows dat (group_inds groups bg) f")
  case (Inl e')
  then have "e' = e" using assms(1) by (simp add: test_feature_def)
  then show ?thesis using Inl take_rows_Inl[OF Inl] take_rows_group_inds[of groups dat bg f]
    by auto
next
  case (Inr vb)
  then have "test_groups tt dat groups fc pc md f (list_all (\<lambda>v. v = None) vb) (detected vb) gs keeps
           = Inl e"
    using assms(1) by (auto simp: test_feature_def split: if_splits)
  then show ?thesis using test_groups_Inl assms(2,3) by fastforce
qed

text \<open>The whole loop over the features, started with counters that are still zero for the
  features to come.\<close>

lemma test_features_Inr:
  assumes "test_features tt dat groups bg gs fc pc md fs keeps = Inr keeps'"
    and "distinct fs" and "\<forall>f\<in>set fs. f < length keeps \<and> keeps ! f = 0"
  shows "length keeps' = length keeps
    \<and> (\<forall>h. h \<notin> set fs \<longrightarrow> keeps' ! h = keeps ! h)
    \<and> (\<forall>f\<in>set fs.
          (count_detected (column dat f) < md \<longrightarrow> keeps' ! f = 0)
        \<and> (count_detected (blank_values dat groups bg f) = 0 \<longrightarrow> keeps' ! f \<le> 0)
        \<and> (count_detected (blank_values dat groups bg f) \<noteq> 0 \<longrightarrow> 0 \<le> keeps' ! f))"
  using assms
proof (induction fs arbitrary: keeps)
  case Nil
  then show ?case by simp
next
  case (Cons f fs)
  from Cons.prems(1) obtain k1 where
    s: "test_feature tt dat groups bg gs fc pc md f keeps = Inr k1" and
    r: "test_features tt dat groups bg gs fc pc md fs k1 = Inr keeps'"
    by (auto split: sum.splits)
  note a = test_feature_Inr[OF s]
  have f: "f < length keeps" "keeps ! f = 0" "f \<notin> set fs" "distinct fs"
    using Cons.prems(2,3) by auto
  have pre: "\<forall>h\<in>set fs. h < length k1 \<and> k1 ! h = 0"
    using a(1,2) Cons.prems(3) f(3) by auto
  note b = Cons.IH[OF r f(4) pre]
  have kf: "keeps' ! f = k1 ! f" using b f(3) by simp
  have "(count_detected (column dat f) < md \<longrightarrow> keeps' ! f = 0)
        \<and> (count_detected (blank_values dat groups bg f) = 0 \<longrightarrow> keeps' ! f \<le> 0)
        \<and> (count_detected (blank_values dat groups bg f) \<noteq> 0 \<longrightarrow> 0 \<le> keeps' ! f)"
    using a(3,4,5) f(1,2) kf by auto
  moreover have "\<forall>h. h \<notin> set (f # fs) \<longrightarrow> keeps' ! h = keeps ! h"
    using a(2) b by auto
  moreover have "length keeps' = length keeps" using a(1) b by simp
  ultimately show ?case using b by auto
qed

lemma test_features_Inl:
  assumes "test_features tt dat groups bg gs fc pc md fs keeps = Inl e"
    and "distinct fs" and "\<forall>f\<in>set fs. f < length keeps \<and> keeps ! f = 0"
  shows "e = IndexError \<and> \<not> length groups \<le> nrows dat"
  using assms
proof (induction fs arbitrary: keeps)
  case Nil
  then show ?case by simp
next
  case (Cons f fs)
  have f: "f < length keeps" "keeps ! f = 0" "f \<notin> set fs" "distinct fs"
    using Cons.prems(2,3) by auto
  show ?case
  proof (cases "test_feature tt dat groups bg gs fc pc md f keeps")
    case (Inl e')
    then have "e' = e" using Cons.prems(1) by simp
    then show ?thesis using test_feature_Inl[OF Inl f(2,1)] by simp
  next
    case (Inr k1)
    then have r: "test_features tt dat groups bg gs fc pc md fs k1 = Inl e"
      using Cons.prems(1) by simp
    note a = test_feature_Inr[OF Inr]
    have pre: "\<forall>h\<in>set fs. h < length k1 \<and> k1 ! h = 0"
      using a(1,2) Cons.prems(3) f(3) by auto
    show ?thesis using Cons.IH[OF r f(4) pre] .
  qed
qed

text \<open>
  Claim C7. \<^verbatim>\<open>blank_subtraction\<close> returns a Boolean keep-mask with exactly one entry per
  matrix column; the entry of a feature is true iff its signed keep-counter is non-zero
  after all tested groups are processed; and a feature with fewer than \<^verbatim>\<open>minDetected\<close>
  non-missing values over all samples keeps the counter 0, so it is dropped. (The group
  labels index rows of the matrix: there are no more labels than rows.)
\<close>

theorem blank_subtraction_keep_mask:
  assumes "length groups \<le> nrows dat"
  shows "\<exists>keeps msk.
           blank_subtraction_keeps tt dat groups bg gs fc pc md = Inr keeps
         \<and> blank_subtraction tt dat groups bg gs fc pc md = Inr msk
         \<and> length msk = ncols dat
         \<and> (\<forall>f<ncols dat. msk ! f = (keeps ! f \<noteq> 0))
         \<and> (\<forall>f<ncols dat. count_detected (column dat f) < md \<longrightarrow>
                keeps ! f = 0 \<and> \<not> msk ! f)"
proof -
  let ?r = "test_features tt dat groups bg gs fc pc md [0..<ncols dat] (replicate (ncols dat) 0)"
  have pre: "\<forall>f\<in>set [0..<ncols dat].
               f < length (replicate (ncols dat) (0::int)) \<and> replicate (ncols dat) (0::int) ! f = 0"
    by simp
  obtain keeps where k: "?r = Inr keeps"
  proof (cases ?r)
    case (Inl e)
    from test_features_Inl[OF Inl _ pre] assms show ?thesis by simp
  next
    case (Inr keeps)
    then show ?thesis using that by simp
  qed
  from test_features_Inr[OF k _ pre]
  have len: "length keeps = ncols dat"
    and ins: "\<forall>f<ncols dat. count_detected (column dat f) < md \<longrightarrow> keeps ! f = 0"
    by auto
  have "blank_subtraction_keeps tt dat groups bg gs fc pc md = Inr keeps"
    using k by (simp add: blank_subtraction_keeps_def)
  moreover from this have "blank_subtraction tt dat groups bg gs fc pc md = Inr (map (\<lambda>k. k \<noteq> 0) keeps)"
    by (simp add: blank_subtraction_def)
  moreover have "length (map (\<lambda>k. k \<noteq> 0) keeps) = ncols dat" using len by simp
  moreover have "\<forall>f<ncols dat. map (\<lambda>k. k \<noteq> 0) keeps ! f = (keeps ! f \<noteq> 0)"
    using len by simp
  moreover have "\<forall>f<ncols dat. count_detected (column dat f) < md \<longrightarrow>
                keeps ! f = 0 \<and> \<not> map (\<lambda>k. k \<noteq> 0) keeps ! f"
    using len ins by simp
  ultimately show ?thesis by blast
qed

theorem blank_subtraction_keep_mask_witness:
  "length [''blank'', ''blank'', ''x'', ''x''] \<le>
     nrows \<lparr>nrows = 4, ncols = 3, cells = (\<lambda>i j.
        [[Some 1, None, None], [Some 1, None, None],
         [Some 10, Some 3, Some 5], [Some 12, Some 4, None]] ! i ! j)\<rparr>
   \<and> count_detected (column \<lparr>nrows = 4, ncols = 3, cells = (\<lambda>i j.
        [[Some 1, None, None], [Some 1, None, None],
         [Some 10, Some 3, Some 5], [Some 12, Some 4, None]] ! i ! j)\<rparr> 2) < 2
   \<and> blank_subtraction (\<lambda>a b. Some (1 / 100))
        \<lparr>nrows = 4, ncols = 3, cells = (\<lambda>i j.
        [[Some 1, None, None], [Some 1, None, None],
         [Some 10, Some 3, Some 5], [Some 12, Some 4, None]] ! i ! j)\<rparr>
        [''blank'', ''blank'', ''x'', ''x''] ''blank'' [''x''] 2 (5 / 100) 2
       = Inr [True, True, False]"
proof -
  let ?dat = "\<lparr>nrows = 4, ncols = 3, cells = (\<lambda>i j.
        [[Some 1, None, None], [Some 1, None, None],
         [Some (10::real), Some 3, Some 5], [Some 12, Some 4, None]] ! i ! j)\<rparr>"
  have h: "length [''blank'', ''blank'', ''x'', ''x''] \<le> nrows ?dat" by simp
  have c: "count_detected (column ?dat 2) < 2" by code_simp
  have e: "blank_subtraction_keeps (\<lambda>a b. Some (1 / 100)) ?dat
        [''blank'', ''blank'', ''x'', ''x''] ''blank'' [''x''] 2 (5 / 100) 2 = Inr [1, - 1, 0]"
    by code_simp
  from blank_subtraction_keep_mask[OF h, of "\<lambda>a b. Some (1 / 100)" "''blank''" "[''x'']" 2 "5 / 100" 2]
  obtain keeps msk where
    "blank_subtraction_keeps (\<lambda>a b. Some (1 / 100)) ?dat
        [''blank'', ''blank'', ''x'', ''x''] ''blank'' [''x''] 2 (5 / 100) 2 = Inr keeps"
    "blank_subtraction (\<lambda>a b. Some (1 / 100)) ?dat
        [''blank'', ''blank'', ''x'', ''x''] ''blank'' [''x''] 2 (5 / 100) 2 = Inr msk"
    "length msk = ncols ?dat" "\<forall>f<ncols ?dat. msk ! f = (keeps ! f \<noteq> 0)"
    by blast
  then have "blank_subtraction (\<lambda>a b. Some (1 / 100)) ?dat
        [''blank'', ''blank'', ''x'', ''x''] ''blank'' [''x''] 2 (5 / 100) 2 = Inr [True, True, False]"
    using e by (simp add: blank_subtraction_def)
  then show ?thesis using h c by simp
qed

text \<open>
  Claim C10. For every input matrix and grouping, the signed keep-counter of a feature never
  mixes sign: when the feature has no non-missing blank value the counter is only ever
  decremented, otherwise it is only ever incremented, so neither assertion (counter \<open>\<le> 0\<close>
  on the only-in-group path, counter \<open>\<ge> 0\<close> on the t-test path) fails.
\<close>

theorem blank_subtraction_counter_sign:
  "blank_subtraction tt dat groups bg gs fc pc md \<noteq> Inl AssertionError
   \<and> blank_subtraction_keeps tt dat groups bg gs fc pc md \<noteq> Inl AssertionError
   \<and> (\<forall>keeps f. blank_subtraction_keeps tt dat groups bg gs fc pc md = Inr keeps
          \<longrightarrow> f < ncols dat \<longrightarrow>
          (if count_detected (blank_values dat groups bg f) = 0
           then keeps ! f \<le> 0 else 0 \<le> keeps ! f))
   \<and> (\<forall>f keeps keeps'. test_feature tt dat groups bg gs fc pc md f keeps = Inr keeps'
          \<longrightarrow> f < length keeps \<longrightarrow>
          (if count_detected (blank_values dat groups bg f) = 0
           then keeps' ! f \<le> keeps ! f else keeps ! f \<le> keeps' ! f))"
proof -
  let ?r = "test_features tt dat groups bg gs fc pc md [0..<ncols dat] (replicate (ncols dat) 0)"
  have pre: "\<forall>f\<in>set [0..<ncols dat].
               f < length (replicate (ncols dat) (0::int)) \<and> replicate (ncols dat) (0::int) ! f = 0"
    by simp
  have na: "?r \<noteq> Inl AssertionError"
  proof
    assume a: "?r = Inl AssertionError"
    from test_features_Inl[OF a _ pre] show False by simp
  qed
  then have 1: "blank_subtraction_keeps tt dat groups bg gs fc pc md \<noteq> Inl AssertionError"
    by (simp add: blank_subtraction_keeps_def)
  then have 2: "blank_subtraction tt dat groups bg gs fc pc md \<noteq> Inl AssertionError"
    by (auto simp: blank_subtraction_def split: sum.splits)
  have 3: "\<forall>keeps f. blank_subtraction_keeps tt dat groups bg gs fc pc md = Inr keeps
          \<longrightarrow> f < ncols dat \<longrightarrow>
          (if count_detected (blank_values dat groups bg f) = 0
           then keeps ! f \<le> 0 else 0 \<le> keeps ! f)"
  proof (intro allI impI)
    fix keeps f
    assume k: "blank_subtraction_keeps tt dat groups bg gs fc pc md = Inr keeps"
      and f: "f < ncols dat"
    then have "?r = Inr keeps" by (simp add: blank_subtraction_keeps_def)
    from test_features_Inr[OF this _ pre] f
    show "if count_detected (blank_values dat groups bg f) = 0
           then keeps ! f \<le> 0 else 0 \<le> keeps ! f"
      by auto
  qed
  have 4: "\<forall>f keeps keeps'. test_feature tt dat groups bg gs fc pc md f keeps = Inr keeps'
          \<longrightarrow> f < length keeps \<longrightarrow>
          (if count_detected (blank_values dat groups bg f) = 0
           then keeps' ! f \<le> keeps ! f else keeps ! f \<le> keeps' ! f)"
    using test_feature_Inr(4,5) by auto
  show ?thesis using 1 2 3 4 by blast
qed

theorem blank_subtraction_counter_sign_witness:
  "blank_subtraction_keeps (\<lambda>a b. Some (1 / 100))
        \<lparr>nrows = 4, ncols = 2, cells = (\<lambda>i j.
           [[Some 1, None], [Some 1, None], [Some 10, Some 3], [Some 12, Some 4]] ! i ! j)\<rparr>
        [''blank'', ''blank'', ''x'', ''x''] ''blank'' [''x'', ''x''] 2 (5 / 100) 2
       = Inr [2, - 2]
   \<and> count_detected (blank_values
        \<lparr>nrows = 4, ncols = 2, cells = (\<lambda>i j.
           [[Some 1, None], [Some 1, None], [Some 10, Some 3], [Some 12, Some 4]] ! i ! j)\<rparr>
        [''blank'', ''blank'', ''x'', ''x''] ''blank'' 1) = 0
   \<and> count_detected (blank_values
        \<lparr>nrows = 4, ncols = 2, cells = (\<lambda>i j.
           [[Some 1, None], [Some 1, None], [Some 10, Some 3], [Some 12, Some 4]] ! i ! j)\<rparr>
        [''blank'', ''blank'', ''x'', ''x''] ''blank'' 0) = 2
   \<and> blank_subtraction (\<lambda>a b. Some (1 / 100))
        \<lparr>nrows = 4, ncols = 2, cells = (\<lambda>i j.
           [[Some 1, None], [Some 1, None], [Some 10, Some 3], [Some 12, Some 4]] ! i ! j)\<rparr>
        [''blank'', ''blank'', ''x'', ''x''] ''blank'' [''x'', ''x''] 2 (5 / 100) 2
       \<noteq> Inl AssertionError"
proof -
  let ?dat = "\<lparr>nrows = 4, ncols = 2, cells = (\<lambda>i j.
           [[Some (1::real), None], [Some 1, None], [Some 10, Some 3], [Some 12, Some 4]] ! i ! j)\<rparr>"
  have e: "blank_subtraction_keeps (\<lambda>a b. Some (1 / 100)) ?dat
        [''blank'', ''blank'', ''x'', ''x''] ''blank'' [''x'', ''x''] 2 (5 / 100) 2 = Inr [2, - 2]"
    by code_simp
  have b1: "count_detected (blank_values ?dat [''blank'', ''blank'', ''x'', ''x''] ''blank'' 1) = 0"
    by code_simp
  have b0: "count_detected (blank_values ?dat [''blank'', ''blank'', ''x'', ''x''] ''blank'' 0) = 2"
    by code_simp
  from blank_subtraction_counter_sign[of "\<lambda>a b. Some (1 / 100)" ?dat
      "[''blank'', ''blank'', ''x'', ''x'']" "''blank''" "[''x'', ''x'']" 2 "5 / 100" 2]
  have "blank_subtraction (\<lambda>a b. Some (1 / 100)) ?dat
        [''blank'', ''blank'', ''x'', ''x''] ''blank'' [''x'', ''x''] 2 (5 / 100) 2
       \<noteq> Inl AssertionError"
    by blast
  then show ?thesis using e b1 b0 by simp
qed


section \<open>Properties of \<^verbatim>\<open>build_data_matrix\<close>\<close>

lemma mask_select_zip:
  "length ys = length xs \<Longrightarrow>
   mask_select ys (map P xs) = map snd (filter (\<lambda>(x, y). P x) (zip xs ys))"
  unfolding mask_select_def
  by (induction ys xs rule: list_induct2) auto

lemma count_true_zip:
  "length ys = length xs \<Longrightarrow>
   (count_true (map P xs) > 0) = (filter (\<lambda>(x, y). P x) (zip xs ys) \<noteq> [])"
proof -
  have "count_true (map P xs) = length (filter P xs)"
    by (simp add: count_true_def filter_map o_def)
  moreover assume "length ys = length xs"
  then have "(length (filter P xs) > 0) = (filter (\<lambda>(x, y). P x) (zip xs ys) \<noteq> [])"
    by (induction ys xs rule: list_induct2) auto
  ultimately show ?thesis by simp
qed

lemma matrix_cell_eq:
  assumes "length (spint sp) = length (mz sp)"
  shows "matrix_cell sp b = Inr (window_cell sp b)"
proof -
  obtain lo mid hi where b: "b = (lo, mid, hi)" by (cases b) auto
  show ?thesis
    using assms count_true_zip[OF assms, of "\<lambda>m. lo \<le> m \<and> m \<le> hi"]
      mask_select_zip[OF assms, of "\<lambda>m. lo \<le> m \<and> m \<le> hi"]
    by (simp add: matrix_cell_def window_cell_def window_intensities_def b Let_def)
qed

text \<open>Filling one row.\<close>

lemma fill_brackets_row:
  assumes "length (spint sp) = length (mz sp)"
    and "r < length M" and "k + length bs \<le> length (M ! r)"
  shows "\<exists>M'. fill_brackets sp r (enumerate k bs) M = Inr M'
     \<and> length M' = length M
     \<and> (\<forall>q. q \<noteq> r \<longrightarrow> M' ! q = M ! q)
     \<and> length (M' ! r) = length (M ! r)
     \<and> (\<forall>j<length (M ! r). M' ! r ! j =
           (if k \<le> j \<and> j < k + length bs then window_cell sp (bs ! (j - k)) else M ! r ! j))"
  using assms(2,3)
proof (induction bs arbitrary: k M)
  case Nil
  then show ?case by auto
next
  case (Cons b bs)
  let ?M1 = "M[r := (M ! r)[k := window_cell sp b]]"
  have 1: "r < length ?M1" "Suc k + length bs \<le> length (?M1 ! r)"
    using Cons.prems by simp_all
  from Cons.IH[OF 1] obtain M' where M':
    "fill_brackets sp r (enumerate (Suc k) bs) ?M1 = Inr M'"
    "length M' = length ?M1"
    "\<forall>q. q \<noteq> r \<longrightarrow> M' ! q = ?M1 ! q"
    "length (M' ! r) = length (?M1 ! r)"
    "\<forall>j<length (?M1 ! r). M' ! r ! j =
           (if Suc k \<le> j \<and> j < Suc k + length bs then window_cell sp (bs ! (j - Suc k))
            else ?M1 ! r ! j)"
    by blast
  have e: "fill_brackets sp r (enumerate k (b # bs)) M = Inr M'"
    using M'(1) by (simp add: matrix_cell_eq[OF assms(1)])
  have "\<forall>j<length (M ! r). M' ! r ! j =
           (if k \<le> j \<and> j < k + length (b # bs) then window_cell sp ((b # bs) ! (j - k))
            else M ! r ! j)"
  proof (intro allI impI)
    fix j assume j: "j < length (M ! r)"
    show "M' ! r ! j =
           (if k \<le> j \<and> j < k + length (b # bs) then window_cell sp ((b # bs) ! (j - k))
            else M ! r ! j)"
    proof (cases "j = k")
      case True
      then show ?thesis using M'(5) j Cons.prems by simp
    next
      case False
      then show ?thesis using M'(5) j Cons.prems
        by (auto simp: nth_Cons' Suc_diff_Suc less_Suc_eq_le not_less_eq_eq)
    qed
  qed
  moreover have "\<forall>q. q \<noteq> r \<longrightarrow> M' ! q = M ! q" using M'(3) by simp
  ultimately show ?case using e M'(2,4) Cons.prems by simp
qed

lemma fill_brackets_whole_row:
  assumes "length (spint sp) = length (mz sp)"
    and "r < length M" and "length (M ! r) = length bs"
  shows "fill_brackets sp r (enumerate 0 bs) M = Inr (M[r := map (window_cell sp) bs])"
proof -
  from fill_brackets_row[OF assms(1,2), of 0 bs] assms(3) obtain M' where M':
    "fill_brackets sp r (enumerate 0 bs) M = Inr M'"
    "length M' = length M"
    "\<forall>q. q \<noteq> r \<longrightarrow> M' ! q = M ! q"
    "length (M' ! r) = length (M ! r)"
    "\<forall>j<length (M ! r). M' ! r ! j = window_cell sp (bs ! j)"
    by auto
  have "M' ! r = map (window_cell sp) bs"
    using M'(4,5) assms(3) by (simp add: list_eq_iff_nth_eq)
  then have "M' = M[r := map (window_cell sp) bs]"
    using M'(2,3) assms(2) by (simp add: list_eq_iff_nth_eq nth_list_update)
  then show ?thesis using M'(1) by simp
qed

text \<open>The dictionary maps a sample name to the last row that carries it.\<close>

lemma rowI_fold:
  "fold (\<lambda>(i, sample) d. d(sample \<mapsto> i)) (enumerate k xs) d0 s =
     (if s \<in> set xs then Some (k + (GREATEST j. j < length xs \<and> xs ! j = s)) else d0 s)"
proof (induction xs arbitrary: d0 rule: rev_induct)
  case Nil
  then show ?case by simp
next
  case (snoc x xs)
  have en: "enumerate k (xs @ [x]) = enumerate k xs @ [(k + length xs, x)]"
    by (simp add: enumerate_append_eq)
  show ?case
  proof (cases "s = x")
    case True
    have "(GREATEST j. j < length (xs @ [x]) \<and> (xs @ [x]) ! j = x) = length xs"
      by (rule Greatest_equality) auto
    then show ?thesis using True by (simp add: en)
  next
    case False
    have "\<And>j. (j < length (xs @ [x]) \<and> (xs @ [x]) ! j = s) = (j < length xs \<and> xs ! j = s)"
      using False by (auto simp: nth_append less_Suc_eq)
    then show ?thesis using False snoc.IH[of d0] by (simp add: en)
  qed
qed

lemma sampleNamesToRowI_Some:
  assumes "s \<in> set names"
  shows "\<exists>r<length names. sampleNamesToRowI names s = Some r \<and> names ! r = s
           \<and> (\<forall>j<length names. r < j \<longrightarrow> names ! j \<noteq> s)"
proof -
  let ?P = "\<lambda>j. j < length names \<and> names ! j = s"
  from assms obtain i where i: "?P i" by (auto simp: in_set_conv_nth)
  have g: "?P (Greatest ?P)"
    by (rule GreatestI_nat[of ?P i "length names"]) (use i in auto)
  have m: "\<And>j. ?P j \<Longrightarrow> j \<le> Greatest ?P"
    by (rule Greatest_le_nat[of ?P _ "length names"]) auto
  have "sampleNamesToRowI names s = Some (Greatest ?P)"
    using assms by (simp add: sampleNamesToRowI_def rowI_fold)
  then show ?thesis using g m by (metis not_le)
qed

lemma sampleNamesToRowI_dom:
  "sampleNamesToRowI names s = Some r \<Longrightarrow> s \<in> set names"
  by (simp add: sampleNamesToRowI_def rowI_fold split: if_splits)

text \<open>Filling the rows of a list of samples.\<close>

lemma fill_samples_rows:
  assumes "\<forall>s\<in>set ss. length (spint (get s)) = length (mz (get s))"
    and "\<forall>s\<in>set ss. \<exists>r<length M. rowI s = Some r"
    and "\<forall>s r. rowI s = Some r \<longrightarrow> key r = s"
    and "\<forall>row\<in>set M. length row = length bs"
  shows "\<exists>M'. fill_samples get rowI bs ss M = Inr M'
     \<and> length M' = length M
     \<and> (\<forall>row\<in>set M'. length row = length bs)
     \<and> (\<forall>s\<in>set ss. \<forall>r. rowI s = Some r \<longrightarrow> M' ! r = map (window_cell (get s)) bs)"
  using assms(1,2,4)
proof (induction ss arbitrary: M)
  case Nil
  then show ?case by simp
next
  case (Cons s ss)
  from Cons.prems(2) obtain r where r: "r < length M" "rowI s = Some r" by auto
  let ?M1 = "M[r := map (window_cell (get s)) bs]"
  have wf: "length (spint (get s)) = length (mz (get s))" using Cons.prems(1) by simp
  have lr: "length (M ! r) = length bs" using Cons.prems(3) r(1) by simp
  have step: "fill_brackets (get s) r (enumerate 0 bs) M = Inr ?M1"
    by (rule fill_brackets_whole_row[OF wf r(1) lr])
  have p1: "\<forall>s\<in>set ss. length (spint (get s)) = length (mz (get s))"
    using Cons.prems(1) by simp
  have p2: "\<forall>s\<in>set ss. \<exists>r<length ?M1. rowI s = Some r" using Cons.prems(2) by simp
  have p3: "\<forall>row\<in>set ?M1. length row = length bs"
    using Cons.prems(3) by (auto dest!: set_update_subset_insert[THEN subsetD])
  from Cons.IH[OF p1 p2 p3] obtain M' where M':
    "fill_samples get rowI bs ss ?M1 = Inr M'" "length M' = length ?M1"
    "\<forall>row\<in>set M'. length row = length bs"
    "\<forall>s\<in>set ss. \<forall>r. rowI s = Some r \<longrightarrow> M' ! r = map (window_cell (get s)) bs"
    by blast
  have e: "fill_samples get rowI bs (s # ss) M = Inr M'"
    using r(2) step M'(1) by simp
  have "M' ! r = map (window_cell (get s)) bs"
  proof (cases "s \<in> set ss")
    case True
    then show ?thesis using M'(4) r(2) by blast
  next
    case False
    (* no later sample writes row r, so the row is the one just written *)
    have "\<forall>s'\<in>set ss. rowI s' \<noteq> Some r"
      using assms(3) r(2) False by metis
    moreover have "\<And>N. (\<forall>s'\<in>set ss. rowI s' \<noteq> Some r) \<Longrightarrow>
        (\<forall>s\<in>set ss. length (spint (get s)) = length (mz (get s))) \<Longrightarrow>
        (\<forall>s\<in>set ss. \<exists>q<length N. rowI s = Some q) \<Longrightarrow>
        (\<forall>row\<in>set N. length row = length bs) \<Longrightarrow>
        fill_samples get rowI bs ss N = Inr M' \<Longrightarrow> M' ! r = N ! r"
    proof (induction ss)
      case Nil
      then show ?case by simp
    next
      case (Cons t ts)
      from Cons.prems(3) obtain q where q: "q < length N" "rowI t = Some q" by auto
      have qr: "q \<noteq> r" using Cons.prems(1) q(2) by auto
      have wt: "length (spint (get t)) = length (mz (get t))" using Cons.prems(2) by simp
      have lq: "length (N ! q) = length bs" using Cons.prems(4) q(1) by simp
      let ?N1 = "N[q := map (window_cell (get t)) bs]"
      have st: "fill_brackets (get t) q (enumerate 0 bs) N = Inr ?N1"
        by (rule fill_brackets_whole_row[OF wt q(1) lq])
      have rest: "fill_samples get rowI bs ts ?N1 = Inr M'"
        using Cons.prems(5) q(2) st by simp
      have "M' ! r = ?N1 ! r"
      proof (rule Cons.IH[OF _ _ _ _ rest])
        show "\<forall>s'\<in>set ts. rowI s' \<noteq> Some r" using Cons.prems(1) by simp
        show "\<forall>s\<in>set ts. length (spint (get s)) = length (mz (get s))"
          using Cons.prems(2) by simp
        show "\<forall>s\<in>set ts. \<exists>q<length ?N1. rowI s = Some q" using Cons.prems(3) by simp
        show "\<forall>row\<in>set ?N1. length row = length bs"
          using Cons.prems(4) by (auto dest!: set_update_subset_insert[THEN subsetD])
      qed
      then show ?case using qr by simp
    qed
    ultimately have "M' ! r = ?M1 ! r" using p1 p2 p3 M'(1) by blast
    then show ?thesis using r(1) by simp
  qed
  then have "\<forall>s'\<in>set (s # ss). \<forall>q. rowI s' = Some q \<longrightarrow> M' ! q = map (window_cell (get s')) bs"
    using M'(4) r(2) by auto
  then show ?case using e M'(2,3) by simp
qed

text \<open>
  Claim C6. In \<^verbatim>\<open>build_data_matrix\<close> the cell of sample \<open>s\<close> and bracket \<open>b\<close> is the sum of
  the consensus-spectrum intensities of \<open>s\<close> whose mass lies in the closed interval
  \<open>[b.min, b.max]\<close> whenever there is such a signal, and it is \<^verbatim>\<open>nan\<close> iff no signal of
  \<open>s\<close> falls into the window; a sum that is zero is not \<^verbatim>\<open>nan\<close>. The row of a sample is the
  one \<^verbatim>\<open>sampleNamesToRowI\<close> gives, which is its position when the names are distinct. (The
  arrays \<^verbatim>\<open>mz\<close> and \<^verbatim>\<open>spint\<close> of every spectrum have the same length.)
\<close>

theorem build_data_matrix_cells:
  assumes "\<forall>s\<in>set sampleNames. length (spint (get s)) = length (mz (get s))"
  shows "\<exists>M. build_data_matrix sampleNames get brs = Inr (sampleNames, brs, M)
     \<and> length M = length sampleNames
     \<and> (\<forall>s\<in>set sampleNames. \<exists>r<length sampleNames.
           sampleNamesToRowI sampleNames s = Some r \<and> sampleNames ! r = s
         \<and> (distinct sampleNames \<longrightarrow> (\<forall>i<length sampleNames. sampleNames ! i = s \<longrightarrow> i = r))
         \<and> length (M ! r) = length brs
         \<and> (\<forall>b<length brs.
               (window_intensities (get s) (brs ! b) \<noteq> [] \<longrightarrow>
                  M ! r ! b = Some (sum_list (window_intensities (get s) (brs ! b))))
             \<and> ((M ! r ! b = None) = (window_intensities (get s) (brs ! b) = []))))"
proof -
  let ?n = "length sampleNames"
  let ?M0 = "replicate ?n (replicate (length brs) (Some (0::real)))"
  let ?rowI = "sampleNamesToRowI sampleNames"
  have p2: "\<forall>s\<in>set sampleNames. \<exists>r<length ?M0. ?rowI s = Some r"
    using sampleNamesToRowI_Some by fastforce
  have p3: "\<forall>s r. ?rowI s = Some r \<longrightarrow> (\<lambda>r. sampleNames ! r) r = s"
    using sampleNamesToRowI_Some sampleNamesToRowI_dom by fastforce
  have p4: "\<forall>row\<in>set ?M0. length row = length brs" by simp
  from fill_samples_rows[OF assms p2 p3 p4] obtain M where M:
    "fill_samples get ?rowI brs sampleNames ?M0 = Inr M" "length M = ?n"
    "\<forall>row\<in>set M. length row = length brs"
    "\<forall>s\<in>set sampleNames. \<forall>r. ?rowI s = Some r \<longrightarrow> M ! r = map (window_cell (get s)) brs"
    by auto
  have e: "build_data_matrix sampleNames get brs = Inr (sampleNames, brs, M)"
    using M(1) by (simp add: build_data_matrix_def)
  have "\<forall>s\<in>set sampleNames. \<exists>r<length sampleNames.
           ?rowI s = Some r \<and> sampleNames ! r = s
         \<and> (distinct sampleNames \<longrightarrow> (\<forall>i<length sampleNames. sampleNames ! i = s \<longrightarrow> i = r))
         \<and> length (M ! r) = length brs
         \<and> (\<forall>b<length brs.
               (window_intensities (get s) (brs ! b) \<noteq> [] \<longrightarrow>
                  M ! r ! b = Some (sum_list (window_intensities (get s) (brs ! b))))
             \<and> ((M ! r ! b = None) = (window_intensities (get s) (brs ! b) = [])))"
  proof
    fix s assume s: "s \<in> set sampleNames"
    from sampleNamesToRowI_Some[OF s] obtain r where r:
      "r < ?n" "?rowI s = Some r" "sampleNames ! r = s" by blast
    have row: "M ! r = map (window_cell (get s)) brs" using M(4) s r(2) by blast
    have d: "distinct sampleNames \<longrightarrow> (\<forall>i<length sampleNames. sampleNames ! i = s \<longrightarrow> i = r)"
      using r(1,3) by (auto simp: distinct_conv_nth)
    have c: "\<forall>b<length brs.
               (window_intensities (get s) (brs ! b) \<noteq> [] \<longrightarrow>
                  M ! r ! b = Some (sum_list (window_intensities (get s) (brs ! b))))
             \<and> ((M ! r ! b = None) = (window_intensities (get s) (brs ! b) = []))"
      using row by (simp add: window_cell_def)
    show "\<exists>r<length sampleNames.
           ?rowI s = Some r \<and> sampleNames ! r = s
         \<and> (distinct sampleNames \<longrightarrow> (\<forall>i<length sampleNames. sampleNames ! i = s \<longrightarrow> i = r))
         \<and> length (M ! r) = length brs
         \<and> (\<forall>b<length brs.
               (window_intensities (get s) (brs ! b) \<noteq> [] \<longrightarrow>
                  M ! r ! b = Some (sum_list (window_intensities (get s) (brs ! b))))
             \<and> ((M ! r ! b = None) = (window_intensities (get s) (brs ! b) = [])))"
      using r row d c by (intro exI[of _ r]) simp
  qed
  then show ?thesis using e M(2) by blast
qed

theorem build_data_matrix_cells_witness:
  "length (spint \<lparr>mz = [100, 200], spint = [0, 5]\<rparr>) = length (mz \<lparr>mz = [100, 200], spint = [0, 5]\<rparr>)
   \<and> length (spint \<lparr>mz = [2000 / 10], spint = [7]\<rparr>) = length (mz \<lparr>mz = [2000 / 10], spint = [7]\<rparr>)
   \<and> build_data_matrix [''a'', ''b'']
        (\<lambda>s. if s = ''a'' then \<lparr>mz = [100, 200], spint = [0, 5]\<rparr>
             else \<lparr>mz = [2000 / 10], spint = [7]\<rparr>)
        [(99, 100, 101), (199, 200, 201), (300, 301, 302)]
      = Inr ([''a'', ''b''], [(99, 100, 101), (199, 200, 201), (300, 301, 302)],
             [[Some 0, Some 5, None], [None, Some 7, None]])
   \<and> window_intensities \<lparr>mz = [100, 200], spint = [0, 5]\<rparr> (99, 100, 101) = [0]
   \<and> window_intensities \<lparr>mz = [2000 / 10], spint = [7]\<rparr> (99, 100, 101) = []"
proof -
  let ?get = "\<lambda>s. if s = ''a'' then \<lparr>mz = [100, 200], spint = [0, 5]\<rparr>
             else \<lparr>mz = [2000 / 10], spint = [7::real]\<rparr>"
  have h: "\<forall>s\<in>set [''a'', ''b'']. length (spint (?get s)) = length (mz (?get s))" by simp
  have e: "build_data_matrix [''a'', ''b''] ?get
        [(99, 100, 101), (199, 200, 201), (300, 301, 302)]
      = Inr ([''a'', ''b''], [(99, 100, 101), (199, 200, 201), (300, 301, 302)],
             [[Some 0, Some 5, None], [None, Some 7, None]])"
    by code_simp
  have w1: "window_intensities \<lparr>mz = [100, 200], spint = [0, 5]\<rparr> (99, 100, 101) = [0]"
    by (simp add: window_intensities_def)
  have w2: "window_intensities \<lparr>mz = [2000 / 10], spint = [7]\<rparr> (99, 100, 101) = []"
    by (simp add: window_intensities_def)
  from build_data_matrix_cells[OF h, of "[(99, 100, 101), (199, 200, 201), (300, 301, 302)]"]
  obtain M where "build_data_matrix [''a'', ''b''] ?get
        [(99, 100, 101), (199, 200, 201), (300, 301, 302)]
      = Inr ([''a'', ''b''], [(99, 100, 101), (199, 200, 201), (300, 301, 302)], M)"
    by blast
  then show ?thesis using e w1 w2 by simp
qed


section \<open>Properties of \<^verbatim>\<open>collapse_mz_info\<close>\<close>

text \<open>The accumulation loop adds, in cell \<open>c\<close>, the contributions of the signals of
  cluster \<open>c\<close>.\<close>

lemma collapse_loop_sums:
  assumes "length intAcc = length mzAcc"
    and "\<forall>(m, it, j)\<in>set sigs. j < int (length mzAcc)"
  shows "\<exists>mzAcc' intAcc'. collapse_loop sigs mzAcc intAcc = Inr (mzAcc', intAcc')
     \<and> length mzAcc' = length mzAcc \<and> length intAcc' = length mzAcc
     \<and> (\<forall>c<length mzAcc.
           mzAcc' ! c = mzAcc ! c
              + sum_list (map (\<lambda>(m, it, j). m * it) (filter (\<lambda>(m, it, j). j = int c) sigs))
         \<and> intAcc' ! c = intAcc ! c
              + sum_list (map (\<lambda>(m, it, j). it) (filter (\<lambda>(m, it, j). j = int c) sigs)))"
  using assms
proof (induction sigs arbitrary: mzAcc intAcc)
  case Nil
  then show ?case by simp
next
  case (Cons sig sigs)
  obtain m it j where sig: "sig = (m, it, j)" by (cases sig) auto
  have jlt: "j < int (length mzAcc)" using Cons.prems(2) sig by simp
  have rest: "\<forall>(m, it, j)\<in>set sigs. j < int (length mzAcc)" using Cons.prems(2) by simp
  show ?case
  proof (cases "0 \<le> j")
    case True
    let ?mz1 = "mzAcc[nat j := mzAcc ! nat j + m * it]"
    let ?in1 = "intAcc[nat j := intAcc ! nat j + it]"
    have nj: "nat j < length mzAcc" using True jlt by simp
    have l1: "length ?in1 = length ?mz1" using Cons.prems(1) by simp
    have r1: "\<forall>(m, it, j)\<in>set sigs. j < int (length ?mz1)" using rest by simp
    from Cons.IH[OF l1 r1] obtain mzAcc' intAcc' where IH:
      "collapse_loop sigs ?mz1 ?in1 = Inr (mzAcc', intAcc')"
      "length mzAcc' = length mzAcc" "length intAcc' = length mzAcc"
      "\<forall>c<length mzAcc.
           mzAcc' ! c = ?mz1 ! c
              + sum_list (map (\<lambda>(m, it, j). m * it) (filter (\<lambda>(m, it, j). j = int c) sigs))
         \<and> intAcc' ! c = ?in1 ! c
              + sum_list (map (\<lambda>(m, it, j). it) (filter (\<lambda>(m, it, j). j = int c) sigs))"
      by auto
    have e: "collapse_loop (sig # sigs) mzAcc intAcc = Inr (mzAcc', intAcc')"
      using IH(1) True nj sig by simp
    have "\<forall>c<length mzAcc.
           mzAcc' ! c = mzAcc ! c
              + sum_list (map (\<lambda>(m, it, j). m * it) (filter (\<lambda>(m, it, j). j = int c) (sig # sigs)))
         \<and> intAcc' ! c = intAcc ! c
              + sum_list (map (\<lambda>(m, it, j). it) (filter (\<lambda>(m, it, j). j = int c) (sig # sigs)))"
    proof (intro allI impI)
      fix c assume c: "c < length mzAcc"
      have eq: "(j = int c) = (nat j = c)" using True by auto
      show "mzAcc' ! c = mzAcc ! c
              + sum_list (map (\<lambda>(m, it, j). m * it) (filter (\<lambda>(m, it, j). j = int c) (sig # sigs)))
         \<and> intAcc' ! c = intAcc ! c
              + sum_list (map (\<lambda>(m, it, j). it) (filter (\<lambda>(m, it, j). j = int c) (sig # sigs)))"
        using IH(4) c Cons.prems(1) sig eq by (cases "nat j = c") (simp_all add: nth_list_update)
    qed
    then show ?thesis using e IH(2,3) by blast
  next
    case False
    from Cons.IH[OF Cons.prems(1) rest] obtain mzAcc' intAcc' where IH:
      "collapse_loop sigs mzAcc intAcc = Inr (mzAcc', intAcc')"
      "length mzAcc' = length mzAcc" "length intAcc' = length mzAcc"
      "\<forall>c<length mzAcc.
           mzAcc' ! c = mzAcc ! c
              + sum_list (map (\<lambda>(m, it, j). m * it) (filter (\<lambda>(m, it, j). j = int c) sigs))
         \<and> intAcc' ! c = intAcc ! c
              + sum_list (map (\<lambda>(m, it, j). it) (filter (\<lambda>(m, it, j). j = int c) sigs))"
      by auto
    have e: "collapse_loop (sig # sigs) mzAcc intAcc = Inr (mzAcc', intAcc')"
      using IH(1) False sig by simp
    have "\<And>c. j \<noteq> int c" using False by auto
    then have "\<forall>c<length mzAcc.
           mzAcc' ! c = mzAcc ! c
              + sum_list (map (\<lambda>(m, it, j). m * it) (filter (\<lambda>(m, it, j). j = int c) (sig # sigs)))
         \<and> intAcc' ! c = intAcc ! c
              + sum_list (map (\<lambda>(m, it, j). it) (filter (\<lambda>(m, it, j). j = int c) (sig # sigs)))"
      using IH(4) sig by simp
    then show ?thesis using e IH(2,3) by blast
  qed
qed

lemma cluster_signals_sums:
  "sum_list (map (\<lambda>(m, it, j). m * it) (filter (\<lambda>(m, it, j). j = c) (zip ms (zip intensity cluster))))
     = sum_list (map (\<lambda>(m, it). m * it) (cluster_signals ms intensity cluster c))"
  "sum_list (map (\<lambda>(m, it, j). it) (filter (\<lambda>(m, it, j). j = c) (zip ms (zip intensity cluster))))
     = total_intensity (cluster_signals ms intensity cluster c)"
  by (simp_all add: cluster_signals_def total_intensity_def o_def case_prod_unfold)

text \<open>The sorted distinct ids of a dense assignment.\<close>

lemma np_unique_dense:
  assumes "\<forall>c\<in>set cluster. - 1 \<le> c \<and> c < int k" and "\<forall>j<k. int j \<in> set cluster"
  shows "(if - 1 \<in> set (np_unique cluster) then drop 1 (np_unique cluster) else np_unique cluster)
           = map int [0..<k]"
proof -
  have sd: "sorted (np_unique cluster)" "distinct (np_unique cluster)"
    "set (np_unique cluster) = set cluster"
    by (simp_all add: np_unique_def)
  have nonneg: "{c \<in> set cluster. 0 \<le> c} = int ` {0..<k}"
  proof
    show "{c \<in> set cluster. 0 \<le> c} \<subseteq> int ` {0..<k}"
    proof
      fix c assume "c \<in> {c \<in> set cluster. 0 \<le> c}"
      then have "0 \<le> c" "c < int k" using assms(1) by auto
      then have "c = int (nat c)" "nat c < k" by auto
      then show "c \<in> int ` {0..<k}" by (metis atLeastLessThan_iff image_eqI le0)
    qed
    show "int ` {0..<k} \<subseteq> {c \<in> set cluster. 0 \<le> c}" using assms(2) by auto
  qed
  have ge0: "\<And>c. c \<in> set cluster \<Longrightarrow> c \<noteq> - 1 \<Longrightarrow> 0 \<le> c"
  proof -
    fix c :: int assume "c \<in> set cluster" "c \<noteq> - 1"
    moreover from this have "- 1 \<le> c" using assms(1) by blast
    ultimately show "0 \<le> c" by arith
  qed
  show ?thesis
  proof (cases "- 1 \<in> set cluster")
    case False
    have "set cluster = {c \<in> set cluster. 0 \<le> c}"
    proof (rule set_eqI)
      fix c show "(c \<in> set cluster) = (c \<in> {c \<in> set cluster. 0 \<le> c})"
        using ge0[of c] False by blast
    qed
    then have s: "set (np_unique cluster) = int ` {0..<k}" using nonneg sd(3) by simp
    have "np_unique cluster = map int [0..<k]"
      by (rule sorted_distinct_upto[OF sd(1,2) s])
    then show ?thesis using False sd(3) by simp
  next
    case True
    then obtain x xs where xs: "np_unique cluster = x # xs"
      using sd(3) by (cases "np_unique cluster") auto
    have "x = - 1"
    proof -
      have "\<forall>y\<in>set xs. x \<le> y" using sd(1) xs by simp
      moreover have "- 1 \<in> set (x # xs)" using True sd(3) xs by simp
      ultimately have "x \<le> - 1" by auto
      moreover have "x \<in> set cluster" using sd(3) xs by (metis list.set_intros(1))
      then have "- 1 \<le> x" using assms(1) by blast
      ultimately show ?thesis by simp
    qed
    have xn: "- 1 \<notin> set xs" using sd(2) xs \<open>x = - 1\<close> by simp
    have sx: "set cluster = insert (- 1) (set xs)" using sd(3) xs \<open>x = - 1\<close> by simp
    have "set xs = {c \<in> set cluster. 0 \<le> c}"
    proof (rule set_eqI)
      fix c show "(c \<in> set xs) = (c \<in> {c \<in> set cluster. 0 \<le> c})"
        using ge0[of c] xn sx by auto
    qed
    then have s: "set xs = int ` {0..<k}" using nonneg by simp
    have "sorted xs" "distinct xs" using sd(1,2) xs by simp_all
    then have "xs = map int [0..<k]" using s by (rule sorted_distinct_upto)
    then show ?thesis using True sd(3) xs by simp
  qed
qed

lemma np_unique_counts_dense:
  assumes "\<forall>c\<in>set cluster. - 1 \<le> c \<and> c < int k" and "\<forall>j<k. int j \<in> set cluster"
  shows "(if - 1 \<in> set (np_unique cluster) then drop 1 (np_unique_counts cluster)
          else np_unique_counts cluster)
           = map (\<lambda>c. count_list cluster (int c)) [0..<k]"
proof -
  have "(if - 1 \<in> set (np_unique cluster) then drop 1 (np_unique_counts cluster)
          else np_unique_counts cluster)
    = map (count_list cluster)
        (if - 1 \<in> set (np_unique cluster) then drop 1 (np_unique cluster) else np_unique cluster)"
    by (simp add: np_unique_counts_def drop_map)
  then show ?thesis using np_unique_dense[OF assms] by (simp add: o_def)
qed

lemma cluster_signals_length:
  assumes "length cluster = length ms" "length intensity = length ms"
  shows "length (cluster_signals ms intensity cluster c) = count_list cluster c"
proof -
  have "length (filter (\<lambda>(m, it, j). j = c) (zip ms (zip intensity cluster))) = count_list cluster c"
  proof -
    have "length ms = length intensity" "length intensity = length cluster"
      using assms by simp_all
    then show ?thesis by (induction ms intensity cluster rule: list_induct3) auto
  qed
  then show ?thesis by (simp add: cluster_signals_def)
qed

lemma collapse_accumulate:
  assumes "length cluster = length ms" "length intensity = length ms"
    and "\<forall>c\<in>set cluster. - 1 \<le> c \<and> c < int k"
  shows "\<exists>mzAcc intAcc.
       collapse_loop (zip ms (zip intensity cluster)) (replicate k 0) (replicate k 0)
         = Inr (mzAcc, intAcc)
     \<and> length mzAcc = k \<and> length intAcc = k
     \<and> (\<forall>c<k. mzAcc ! c = sum_list (map (\<lambda>(m, it). m * it)
                                (cluster_signals ms intensity cluster (int c)))
             \<and> intAcc ! c = total_intensity (cluster_signals ms intensity cluster (int c)))"
proof -
  let ?sigs = "zip ms (zip intensity cluster)"
  have b: "\<forall>(m, it, j)\<in>set ?sigs. j < int (length (replicate k (0::real)))"
  proof (clarify)
    fix m it j assume "(m, it, j) \<in> set ?sigs"
    then have "j \<in> set cluster" by (meson set_zip_rightD)
    then show "j < int (length (replicate k (0::real)))" using assms(3) by simp
  qed
  have l: "length (replicate k (0::real)) = length (replicate k (0::real))" by simp
  from collapse_loop_sums[OF l b] obtain mzAcc intAcc where r:
    "collapse_loop ?sigs (replicate k 0) (replicate k 0) = Inr (mzAcc, intAcc)"
    "length mzAcc = k" "length intAcc = k"
    "\<forall>c<k. mzAcc ! c = replicate k 0 ! c
              + sum_list (map (\<lambda>(m, it, j). m * it) (filter (\<lambda>(m, it, j). j = int c) ?sigs))
         \<and> intAcc ! c = replicate k 0 ! c
              + sum_list (map (\<lambda>(m, it, j). it) (filter (\<lambda>(m, it, j). j = int c) ?sigs))"
    by auto
  have "\<forall>c<k. mzAcc ! c = sum_list (map (\<lambda>(m, it). m * it)
                                (cluster_signals ms intensity cluster (int c)))
             \<and> intAcc ! c = total_intensity (cluster_signals ms intensity cluster (int c))"
    using r(4) by (simp add: cluster_signals_sums)
  then show ?thesis using r(1,2,3) by blast
qed

text \<open>
  Claim C5. Under the rules \<^verbatim>\<open>"sum"\<close> and \<^verbatim>\<open>"average"\<close>, for a cluster assignment whose
  ids other than the sentinel are dense \<open>0..k-1\<close> and for positive intensities,
  \<^verbatim>\<open>collapse_mz_info\<close> returns one (m/z, intensity) pair per surviving cluster: the m/z is
  the intensity-weighted mean of the masses of the cluster, the intensity is the total of the
  cluster (\<^verbatim>\<open>"sum"\<close>) or the total divided by the number of its signals (\<^verbatim>\<open>"average"\<close>),
  and the pairs are sorted by ascending m/z. The cluster with masses \<open>[100.0, 100.0002]\<close>
  and intensities \<open>[1, 3]\<close> collapses to the mass \<open>100.00015\<close>. (The three input arrays
  have the same length.)
\<close>

theorem collapse_mz_info_weighted_mean:
  assumes "length cluster = length ms" and "length intensity = length ms"
    and "\<forall>c\<in>set cluster. - 1 \<le> c \<and> c < int k" and "\<forall>j<k. int j \<in> set cluster"
    and "\<forall>x\<in>set intensity. 0 < x"
    and "method = ''sum'' \<or> method = ''average''"
  shows "\<exists>ord. mset ord = mset [0..<k]
     \<and> collapse_mz_info ms intensity cluster method =
         Inr (map (\<lambda>c. weighted_mean_mz (cluster_signals ms intensity cluster (int c))) ord,
              map (\<lambda>c. if method = ''sum''
                        then total_intensity (cluster_signals ms intensity cluster (int c))
                        else total_intensity (cluster_signals ms intensity cluster (int c))
                               / real (length (cluster_signals ms intensity cluster (int c)))) ord)
     \<and> sorted (map (\<lambda>c. weighted_mean_mz (cluster_signals ms intensity cluster (int c))) ord)
     \<and> collapse_mz_info [100, 1000002 / 10000] [1, 3] [0, 0] ''sum''
          = Inr ([10000015 / 100000], [4])"
proof -
  let ?sig = "\<lambda>c. cluster_signals ms intensity cluster (int c)"
  from collapse_accumulate[OF assms(1,2,3)] obtain mzAcc intAcc where acc:
    "collapse_loop (zip ms (zip intensity cluster)) (replicate k 0) (replicate k 0)
         = Inr (mzAcc, intAcc)"
    "length mzAcc = k" "length intAcc = k"
    "\<forall>c<k. mzAcc ! c = sum_list (map (\<lambda>(m, it). m * it) (?sig c))
             \<and> intAcc ! c = total_intensity (?sig c)"
    by blast
  let ?mzW = "map2 (\<lambda>a b. a / b) mzAcc intAcc"
  let ?ns = "map (\<lambda>c. count_list cluster (int c)) [0..<k]"
  let ?intAvg = "map2 (\<lambda>a n. a / real n) intAcc ?ns"
  let ?ord = "argsort ?mzW"
  have lW: "length ?mzW = k" using acc(2,3) by simp
  have ordk: "\<forall>c\<in>set ?ord. c < k" using lW by (simp add: set_argsort)
  have mW: "\<forall>c<k. ?mzW ! c = weighted_mean_mz (?sig c)"
    using acc(2,3,4) by (simp add: weighted_mean_mz_def)
  have mA: "\<forall>c<k. ?intAvg ! c = total_intensity (?sig c) / real (length (?sig c))"
    using acc(3,4) by (simp add: cluster_signals_length[OF assms(1,2)])
  have 1: "map (\<lambda>i. ?mzW ! i) ?ord = map (\<lambda>c. weighted_mean_mz (?sig c)) ?ord"
    using ordk mW by (intro map_cong) auto
  have 2: "map (\<lambda>i. intAcc ! i) ?ord = map (\<lambda>c. total_intensity (?sig c)) ?ord"
    using ordk acc(4) by (intro map_cong) auto
  have 3: "map (\<lambda>i. ?intAvg ! i) ?ord
           = map (\<lambda>c. total_intensity (?sig c) / real (length (?sig c))) ?ord"
    using ordk mA by (intro map_cong) auto
  have lens: "\<not> (length cluster < length ms \<or> length intensity < length ms)"
    using assms(1,2) by simp
  have lk: "length (if - 1 \<in> set (np_unique cluster) then drop 1 (np_unique cluster)
                    else np_unique cluster) = k"
    by (simp only: np_unique_dense[OF assms(3,4)]) simp
  have res: "collapse_mz_info ms intensity cluster method =
         Inr (map (\<lambda>c. weighted_mean_mz (?sig c)) ?ord,
              map (\<lambda>c. if method = ''sum'' then total_intensity (?sig c)
                        else total_intensity (?sig c) / real (length (?sig c))) ?ord)"
  proof (cases "method = ''sum''")
    case True
    show ?thesis
      unfolding collapse_mz_info_def Let_def
      using lens True 1 2
      by (simp only: lk acc(1) if_False if_True sum.case prod.case) simp
  next
    case False
    then have av: "method = ''average''" using assms(6) by simp
    have ns: "(if - 1 \<in> set (np_unique cluster) then drop 1 (np_unique_counts cluster)
                else np_unique_counts cluster) = ?ns"
      by (rule np_unique_counts_dense[OF assms(3,4)])
    have ne: "''average'' \<noteq> ''sum''" by simp
    show ?thesis
      unfolding collapse_mz_info_def Let_def
      using lens 1 3 ne
      by (simp only: av lk ns acc(1) if_False if_True sum.case prod.case refl)
  qed
  have srt: "sorted (map (\<lambda>c. weighted_mean_mz (?sig c)) ?ord)"
    using sorted_argsort[of ?mzW] 1 by simp
  have ex: "collapse_mz_info [100, 1000002 / 10000] [1, 3] [0, 0] ''sum''
          = Inr ([10000015 / 100000], [4])"
    by code_simp
  have "mset ?ord = mset [0..<k]" using mset_argsort[of ?mzW] lW by simp
  then show ?thesis using res srt ex by blast
qed

theorem collapse_mz_info_witness:
  "length [1, 1, 0, 0, - 1 :: int] = length [100, 1000002 / 10000, 50, 60, 70 :: real]
   \<and> length [1, 3, 2, 2, 1 :: real] = length [100, 1000002 / 10000, 50, 60, 70 :: real]
   \<and> list_all (\<lambda>c. - 1 \<le> c \<and> c < int 2) [1, 1, 0, 0, - 1]
   \<and> list_all (\<lambda>j. int j \<in> set [1, 1, 0, 0, - 1]) [0..<2]
   \<and> list_all (\<lambda>x. 0 < x) [1, 3, 2, 2, 1 :: real]
   \<and> collapse_mz_info [100, 1000002 / 10000, 50, 60, 70] [1, 3, 2, 2, 1] [1, 1, 0, 0, - 1]
        ''average'' = Inr ([55, 10000015 / 100000], [2, 2])
   \<and> weighted_mean_mz (cluster_signals [100, 1000002 / 10000, 50, 60, 70] [1, 3, 2, 2, 1]
        [1, 1, 0, 0, - 1] 1) = 10000015 / 100000"
proof -
  have h1: "length [1, 1, 0, 0, - 1 :: int] = length [100, 1000002 / 10000, 50, 60, 70 :: real]"
    by simp
  have h2: "length [1, 3, 2, 2, 1 :: real] = length [100, 1000002 / 10000, 50, 60, 70 :: real]"
    by simp
  have h3: "\<forall>c\<in>set [1, 1, 0, 0, - 1 :: int]. - 1 \<le> c \<and> c < int 2" by simp
  have h4: "\<forall>j<2. int j \<in> set [1, 1, 0, 0, - 1]" by (auto simp: less_Suc_eq numeral_2_eq_2)
  have h5: "\<forall>x\<in>set [1, 3, 2, 2, 1 :: real]. 0 < x" by simp
  have h6: "''average'' = ''sum'' \<or> ''average'' = ''average''" by simp
  have e: "collapse_mz_info [100, 1000002 / 10000, 50, 60, 70] [1, 3, 2, 2, 1] [1, 1, 0, 0, - 1]
        ''average'' = Inr ([55, 10000015 / 100000], [2, 2])"
    by code_simp
  have w: "weighted_mean_mz (cluster_signals [100, 1000002 / 10000, 50, 60, 70] [1, 3, 2, 2, 1]
        [1, 1, 0, 0, - 1] 1) = 10000015 / 100000"
    by code_simp
  from collapse_mz_info_weighted_mean[OF h1 h2 h3 h4 h5 h6]
  obtain ord where "mset ord = mset [0..<2]" by blast
  then show ?thesis using e w h4 by (simp add: list_all_iff)
qed


section \<open>Properties of the bracketing loop\<close>

lemma length_index_assign: "length (index_assign xs inds v) = length xs"
  unfolding index_assign_def by (induction inds arbitrary: xs) simp_all

lemma index_assign_nth:
  "i < length xs \<Longrightarrow> index_assign xs inds v ! i = (if i \<in> set inds then v else xs ! i)"
  unfolding index_assign_def
proof (induction inds arbitrary: xs)
  case Nil
  then show ?case by simp
next
  case (Cons j inds)
  then have "i < length (xs[j := v])" by simp
  from Cons.IH[OF this] Cons.prems show ?case by (auto simp: nth_list_update)
qed

lemma set_np_where: "set (np_where msk) = {i. i < length msk \<and> msk ! i}"
  by (auto simp: np_where_def)

text \<open>
  What one iteration of the loop does: the id of the new bracket goes to every signal of the
  pool that passes the window test, whatever its label, and every other signal
  keeps its label.
\<close>

lemma bracket_step_assigns_window:
  assumes "bracket_step max_ppm_deviation s = Inr s'"
    and "length (temp_cluster s) = length (temp_mz s)"
  shows "length (temp_cluster s') = length (temp_cluster s)
     \<and> temp_mz s' = temp_mz s
     \<and> cclust s' = cclust s + 1
     \<and> info_cluster (last (tempClusterInfo s')) = cclust s
     \<and> (\<forall>i<length (temp_mz s).
           temp_cluster s' ! i =
             (if ppm_le (temp_mz s ! i - temp_mz s ! bracket_seed s) (temp_mz s ! i)
                   max_ppm_deviation
              then cclust s else temp_cluster s ! i))"
proof -
  let ?assign = "bracket_assign max_ppm_deviation s"
  from assms(1) have s': "s' = s\<lparr>temp_cluster := index_assign (temp_cluster s) ?assign (cclust s),
       cclust := cclust s + 1,
       tempClusterInfo := tempClusterInfo s @
         [\<lparr>info_cluster = cclust s,
           meanMZ = np_mean (map (\<lambda>i. temp_mz s ! i) ?assign),
           minMZ = np_min (map (\<lambda>i. temp_mz s ! i) ?assign),
           maxMZ = np_max (map (\<lambda>i. temp_mz s ! i) ?assign),
           mzDevPPM = (np_max (map (\<lambda>i. temp_mz s ! i) ?assign)
                        - np_min (map (\<lambda>i. temp_mz s ! i) ?assign))
                      / np_mean (map (\<lambda>i. temp_mz s ! i) ?assign) * 1000000,
           assignedSamples = length ?assign,
           uniqueSamples = length (remdups (map (\<lambda>i. temp_sample s ! i) ?assign))\<rparr>]\<rparr>"
    by (simp add: bracket_step_def Let_def split: if_splits)
  have mem: "\<And>i. i < length (temp_mz s) \<Longrightarrow>
      (i \<in> set ?assign) = ppm_le (temp_mz s ! i - temp_mz s ! bracket_seed s) (temp_mz s ! i)
                             max_ppm_deviation"
    by (simp add: bracket_assign_def Let_def set_np_where)
  have "\<forall>i<length (temp_mz s).
           temp_cluster s' ! i =
             (if ppm_le (temp_mz s ! i - temp_mz s ! bracket_seed s) (temp_mz s ! i)
                   max_ppm_deviation
              then cclust s else temp_cluster s ! i)"
    using assms(2) mem by (simp add: s' index_assign_nth)
  then show ?thesis by (simp add: s' length_index_assign)
qed

text \<open>
  Claim C1 (every iteration assigns to the new bracket exactly the still unassigned signals
  within \<^verbatim>\<open>max_ppm_deviation\<close> ppm of the mass of the seed, and a signal of an earlier
  bracket is never reassigned to a later one) fails on the code. The loop test and the seed
  read the mask \<^verbatim>\<open>temp["cluster"] == 0\<close>, but the window test
  \<^verbatim>\<open>np.where(np.abs(temp["mz"] - cmz) / temp["mz"] * 1E6 <= max_ppm_deviation)\<close> runs over
  the whole pool, and \<^verbatim>\<open>temp["cluster"][assign] = cclust\<close> overwrites the labels of
  assigned signals.

  \<^item> Pool of the masses 100, 100.002, 100.004 with the logarithmic intensities 3, 2, 1, at
    25 ppm: the first iteration (seed 0) gives the labels \<open>[1, 1, 0]\<close>; the second one
    (seed 2) moves the second signal from bracket 1 to bracket 2, and the loop ends with
    \<open>[1, 2, 2]\<close>.
  \<^item> Pool of the masses 100.00250003, 100 with the logarithmic intensities 3, 2, at 25 ppm:
    the first iteration brackets the first signal alone (labels \<open>[1, 0]\<close>), the second
    one takes both signals, and the loop ends with the labels \<open>[2, 2]\<close>. Bracket 1 is
    returned with \<^verbatim>\<open>assignedSamples\<close> 1 and with no signal that carries its id.
\<close>

theorem bracket_loop_reassigns:
  "map_sum id temp_cluster
     (bracket_step 25 (bracket_init [''a'', ''a'', ''b''] [100, 100002 / 1000, 100004 / 1000] [3, 2, 1]))
     = Inr [1, 1, 0]
   \<and> bracket_seed (projr
       (bracket_step 25 (bracket_init [''a'', ''a'', ''b''] [100, 100002 / 1000, 100004 / 1000] [3, 2, 1])))
     = 2
   \<and> map_sum id temp_cluster
     (bracket_step 25 (projr
       (bracket_step 25 (bracket_init [''a'', ''a'', ''b''] [100, 100002 / 1000, 100004 / 1000] [3, 2, 1]))))
     = Inr [1, 2, 2]
   \<and> map_option (map_sum id temp_cluster)
     (bracket_loop 25 (bracket_init [''a'', ''a'', ''b''] [100, 100002 / 1000, 100004 / 1000] [3, 2, 1]))
     = Some (Inr [1, 2, 2])
   \<and> map_sum id temp_cluster
     (bracket_step 25 (bracket_init [''a'', ''b''] [10000250003 / 100000000, 100] [3, 2]))
     = Inr [1, 0]
   \<and> map_option (map_sum id temp_cluster)
     (bracket_loop 25 (bracket_init [''a'', ''b''] [10000250003 / 100000000, 100] [3, 2]))
     = Some (Inr [2, 2])
   \<and> map_option
       (map_sum id (\<lambda>s. map (\<lambda>b. (info_cluster b, assignedSamples b)) (tempClusterInfo s)))
     (bracket_loop 25 (bracket_init [''a'', ''b''] [10000250003 / 100000000, 100] [3, 2]))
     = Some (Inr [(1, 1), (2, 2)])"
  by code_simp

text \<open>A pool on which the loop makes no progress.\<close>

lemma bracket_stuck_step:
  assumes "temp_mz s = [100, 200]" "temp_intensity s = [- 1, - 1]"
    and "temp_cluster s = [a, 0]" and "cclust s \<noteq> 0"
  shows "\<exists>s'. bracket_step 25 s = Inr s' \<and> temp_mz s' = [100, 200]
     \<and> temp_intensity s' = [- 1, - 1] \<and> temp_cluster s' = [cclust s, 0]
     \<and> cclust s' = cclust s + 1 \<and> bracket_seed s = 0"
proof -
  have seed: "bracket_seed s = 0"
    using assms(2,3) by (simp add: bracket_seed_def np_argmax_def np_max_def)
  have asg: "bracket_assign 25 s = [0]"
    using assms(1) seed
    by (simp add: bracket_assign_def np_where_def ppm_le_def upt_rec[of 0] upt_rec[of 1])
  show ?thesis
    using assms seed asg by (simp add: bracket_step_def Let_def index_assign_def)
qed

lemma bracket_stuck_forever:
  assumes "bracket_loop ppm s = Some r"
  shows "\<not> (ppm = 25 \<and> temp_mz s = [100, 200] \<and> temp_intensity s = [- 1, - 1]
            \<and> (\<exists>a. temp_cluster s = [a, 0]) \<and> cclust s \<noteq> 0 \<and> 0 \<le> cclust s)"
proof -
  let ?Q = "\<lambda>ppm s (r :: error + bstate).
         \<not> (ppm = 25 \<and> temp_mz s = [100, 200] \<and> temp_intensity s = [- 1, - 1]
            \<and> (\<exists>a. temp_cluster s = [a, 0]) \<and> cclust s \<noteq> 0 \<and> 0 \<le> cclust s)"
  have "?Q ppm s r"
  proof (rule bracket_loop.raw_induct[where P = ?Q, OF _ assms])
    fix loop :: "real \<Rightarrow> bstate \<Rightarrow> (error + bstate) option" and ppm s r
    assume IH: "\<And>ppm s r. loop ppm s = Some r \<Longrightarrow> ?Q ppm s r"
      and step: "(if 0 < count_list (temp_cluster s) 0
          then let r = bracket_step ppm s
               in if isl r then Some (Inl (projl r)) else loop ppm (projr r)
          else Some (Inr s)) = Some r"
    show "?Q ppm s r"
    proof
      assume inv: "ppm = 25 \<and> temp_mz s = [100, 200] \<and> temp_intensity s = [- 1, - 1]
            \<and> (\<exists>a. temp_cluster s = [a, 0]) \<and> cclust s \<noteq> 0 \<and> 0 \<le> cclust s"
      then obtain a where a: "temp_cluster s = [a, 0]" by blast
      from bracket_stuck_step[OF _ _ a] inv obtain s' where s':
        "bracket_step 25 s = Inr s'" "temp_mz s' = [100, 200]"
        "temp_intensity s' = [- 1, - 1]" "temp_cluster s' = [cclust s, 0]"
        "cclust s' = cclust s + 1"
        by blast
      have c: "0 < count_list (temp_cluster s) 0" using a by (cases "a = 0") simp_all
      have p: "ppm = 25" using inv by simp
      have l: "loop ppm s' = Some r" using step c s'(1) unfolding p by (simp add: Let_def)
      have "cclust s' \<noteq> 0" "0 \<le> cclust s'" using inv s'(5) by arith+
      then have "ppm = 25 \<and> temp_mz s' = [100, 200] \<and> temp_intensity s' = [- 1, - 1]
            \<and> (\<exists>a. temp_cluster s' = [a, 0]) \<and> cclust s' \<noteq> 0 \<and> 0 \<le> cclust s'"
        using p s'(2,3,4) by blast
      with IH[OF l] show False by blast
    qed
  qed
  then show ?thesis .
qed

text \<open>
  Claim C3 (the bracketing loop terminates for every non-empty pool with no unassigned
  signal left, each seed being the unassigned signal of highest intensity, the lowest index
  winning a tie) fails on the code. The pool stores the decadic logarithm of the intensities, and
  the seed is the \<^verbatim>\<open>argmax\<close> of that value multiplied by the mask of the unassigned
  signals: a signal of intensity below 1 has a negative logarithm and loses against the
  zero of an assigned signal. In the pool of two signals of intensity \<open>0.1\<close> (logarithm
  \<open>-1\<close>) at the masses 100 and 200 the first iteration brackets the first signal; from
  then on the seed is that assigned signal again, the second signal is never assigned and
  the loop does not terminate.
\<close>

theorem bracket_loop_diverges:
  "bracket_loop 25 (bracket_init [''a'', ''b''] [100, 200] [- 1, - 1]) = None
   \<and> map_sum id temp_cluster (bracket_step 25 (bracket_init [''a'', ''b''] [100, 200] [- 1, - 1]))
       = Inr [1, 0]
   \<and> bracket_seed (projr (bracket_step 25 (bracket_init [''a'', ''b''] [100, 200] [- 1, - 1]))) = 0"
proof -
  let ?s = "bracket_init [''a'', ''b''] [100, 200] [- 1, - 1]"
  have "bracket_loop 25 ?s = None"
  proof (cases "bracket_loop 25 ?s")
    case None
    then show ?thesis .
  next
    case (Some r)
    from bracket_stuck_forever[OF Some] show ?thesis by (simp add: bracket_init_def)
  qed
  moreover have "map_sum id temp_cluster (bracket_step 25 ?s) = Inr [1, 0]" by code_simp
  moreover have "bracket_seed (projr (bracket_step 25 ?s)) = 0" by code_simp
  ultimately show ?thesis by simp
qed


section \<open>Properties of \<^verbatim>\<open>refine_clustering\<close>\<close>

subsection \<open>Positions of a cluster and marks\<close>

lemma positions_set: "set (positions clusts c) = {g. g < length clusts \<and> clusts ! g = c}"
  by (auto simp: positions_def)

lemma positions_distinct: "distinct (positions clusts c)"
  by (simp add: positions_def)

lemma positions_nth:
  assumes "j < length (positions clusts c)"
  shows "positions clusts c ! j < length clusts" and "clusts ! (positions clusts c ! j) = c"
  using nth_mem[OF assms] by (simp_all add: positions_set)

lemma positions_length: "length (positions clusts c) = count_list clusts c"
proof -
  have "map (\<lambda>g. clusts ! g) (positions clusts c) = filter (\<lambda>x. x = c) clusts"
    unfolding positions_def by (rule filter_by_index)
  then have "length (positions clusts c) = length (filter (\<lambda>x. x = c) clusts)"
    by (metis length_map)
  also have "\<dots> = count_list clusts c"
    by (induction clusts) auto
  finally show ?thesis .
qed

lemma positions_inj:
  assumes "i < length (positions clusts c)" "j < length (positions clusts c)"
  shows "(positions clusts c ! i = positions clusts c ! j) = (i = j)"
  using assms positions_distinct[of clusts c] by (simp add: nth_eq_iff_index_eq)

lemma positions_mem:
  assumes "g < length clusts" "clusts ! g = c"
  shows "\<exists>j<length (positions clusts c). positions clusts c ! j = g"
proof -
  have "g \<in> set (positions clusts c)" using assms by (simp add: positions_set)
  then show ?thesis by (auto simp: in_set_conv_nth)
qed

lemma count_list_take_one:
  "i < length xs \<Longrightarrow> xs ! i = (0::int) \<Longrightarrow> Suc (count_list (xs[i := 1]) 0) = count_list xs 0"
proof (induction xs arbitrary: i)
  case Nil
  then show ?case by simp
next
  case (Cons x xs)
  then show ?case by (cases i) auto
qed

lemma count_list_neg_abs: "count_list (map (\<lambda>u. - \<bar>u\<bar>) xs) (0::int) = count_list xs 0"
  by (induction xs) auto

lemma count_list_pos_iff: "(0 < count_list xs a) = (a \<in> set xs)"
  using count_list_0_iff[of xs a] by auto

subsection \<open>The seed and the closest signal are unmarked\<close>

lemma seed_signal_unused:
  assumes "length ints' = length (used s)" and "\<forall>x\<in>set ints'. 0 < x" and "0 \<in> set (used s)"
  shows "seed_signal ints' s < length (used s)" and "used s ! seed_signal ints' s = 0"
proof -
  let ?xs = "map2 (\<lambda>i u. i * of_bool (u = 0)) ints' (used s)"
  let ?c = "np_argmax ?xs"
  have len: "length ?xs = length (used s)" using assms(1) by simp
  from assms(3) obtain j where j: "j < length (used s)" "used s ! j = 0"
    by (auto simp: in_set_conv_nth)
  then have ne: "?xs \<noteq> []" using len by auto
  have "?xs ! j = ints' ! j" using j assms(1) by simp
  moreover have "0 < ints' ! j" using assms(1,2) j by simp
  moreover have "?xs ! j \<le> np_max ?xs" using j len by (intro np_max_ge) (metis nth_mem)
  ultimately have pos: "0 < np_max ?xs" by simp
  have c: "?c < length (used s)" using np_argmax_props(1)[OF ne] len by simp
  have "?xs ! ?c = np_max ?xs" by (rule np_argmax_props(2)[OF ne])
  then have "0 < ints' ! ?c * of_bool (used s ! ?c = 0)" using pos c assms(1) by simp
  then have "used s ! ?c = 0" by (cases "used s ! ?c = 0") simp_all
  then show "seed_signal ints' s < length (used s)" "used s ! seed_signal ints' s = 0"
    using c by (simp_all add: seed_signal_def)
qed

lemma nearest_unused:
  assumes "length mzs' = length us" and "\<forall>x\<in>set mzs'. 0 < x \<and> x < 1000000"
    and "0 \<in> set us" and "\<forall>j<length us. us ! j = 0 \<or> us ! j = 1 \<or> us ! j = - 1"
    and "0 < e" "e < 1000000"
  shows "np_argmin (dist_to mzs' us e) < length us"
    and "us ! np_argmin (dist_to mzs' us e) = 0"
proof -
  let ?t = "dist_to mzs' us e"
  let ?c = "np_argmin ?t"
  have len: "length ?t = length us" using assms(1) by (simp add: dist_to_def)
  have tj: "\<And>j. j < length us \<Longrightarrow> ?t ! j = \<bar>mzs' ! j - e\<bar> + \<bar>real_of_int (us ! j)\<bar> * 1000000"
    using assms(1) by (simp add: dist_to_def)
  have near: "\<And>j. j < length us \<Longrightarrow> \<bar>mzs' ! j - e\<bar> < 1000000"
  proof -
    fix j assume "j < length us"
    then have "0 < mzs' ! j \<and> mzs' ! j < 1000000" using assms(1,2) by simp
    then show "\<bar>mzs' ! j - e\<bar> < 1000000" using assms(5,6) by (simp add: abs_less_iff)
  qed
  from assms(3) obtain j where j: "j < length us" "us ! j = 0"
    by (auto simp: in_set_conv_nth)
  then have ne: "?t \<noteq> []" using len by auto
  have c: "?c < length us" using np_argmin_props(1)[OF ne] len by simp
  have "?t ! ?c = np_min ?t" by (rule np_argmin_props(2)[OF ne])
  also have "\<dots> \<le> ?t ! j" using j len by (intro np_min_le) (metis nth_mem)
  also have "\<dots> < 1000000" using tj[OF j(1)] near[OF j(1)] j(2) by simp
  finally have small: "?t ! ?c < 1000000" .
  have "us ! ?c = 0"
  proof (rule ccontr)
    assume "us ! ?c \<noteq> 0"
    then have "\<bar>real_of_int (us ! ?c)\<bar> = 1" using assms(4) c by auto
    then have "1000000 \<le> ?t ! ?c" using tj[OF c] by simp
    then show False using small by simp
  qed
  then show "np_argmin (dist_to mzs' us e) < length us"
    and "us ! np_argmin (dist_to mzs' us e) = 0"
    using c by simp_all
qed

lemma closest_signal_unused:
  assumes "length mzs' = length (used s)" and "\<forall>x\<in>set mzs'. 0 < x \<and> x < 1000000"
    and "0 \<in> set (used s)"
    and "\<forall>j<length (used s). used s ! j = 0 \<or> used s ! j = 1 \<or> used s ! j = - 1"
    and "used_mzs s \<noteq> []" and "set (used_mzs s) \<subseteq> set mzs'"
  shows "closest_signal mzs' s < length (used s)" and "used s ! closest_signal mzs' s = 0"
proof -
  have hi: "0 < np_max (used_mzs s)" "np_max (used_mzs s) < 1000000"
    using np_max_in[OF assms(5)] assms(2,6) by auto
  have lo: "0 < np_min (used_mzs s)" "np_min (used_mzs s) < 1000000"
    using np_min_in[OF assms(5)] assms(2,6) by auto
  note t = nearest_unused[OF assms(1,2,3,4) hi]
  note l = nearest_unused[OF assms(1,2,3,4) lo]
  show "closest_signal mzs' s < length (used s)" and "used s ! closest_signal mzs' s = 0"
    using t l by (simp_all add: closest_signal_def Let_def)
qed

subsection \<open>The steps of the loops keep the invariant\<close>

lemma rinv0D:
  assumes "rinv0 mzs clusts M0 seen clust s"
  shows "length (used s) = length (positions clusts clust)"
    and "length (usedMZs s) = length (positions clusts clust)"
    and "length (newClusts s) = length clusts"
    and "clust \<le> M0" and "M0 \<le> maxClust s"
    and "\<forall>j<length (positions clusts clust). used s ! j = 0 \<or> used s ! j = 1 \<or> used s ! j = - 1"
    and "\<forall>j<length (positions clusts clust). used s ! j = 0 \<longrightarrow>
           newClusts s ! (positions clusts clust ! j) = clust"
    and "\<forall>j<length (positions clusts clust). used s ! j = - 1 \<longrightarrow>
           M0 < newClusts s ! (positions clusts clust ! j)
           \<and> newClusts s ! (positions clusts clust ! j) \<le> maxClust s"
    and "\<forall>j<length (positions clusts clust). used s ! j = 1 \<longrightarrow>
           newClusts s ! (positions clusts clust ! j) = maxClust s + 1
           \<and> usedMZs s ! j = mzs ! (positions clusts clust ! j)"
    and "\<forall>g<length clusts. clusts ! g \<noteq> clust \<longrightarrow> newClusts s ! g \<le> maxClust s"
    and "\<forall>g<length clusts. newClusts s ! g \<le> M0 \<longrightarrow> newClusts s ! g = clusts ! g"
    and "\<forall>g<length clusts. clusts ! g \<in> seen \<longrightarrow> M0 < newClusts s ! g"
    and "\<forall>g<length clusts. clusts ! g \<notin> seen \<longrightarrow> clusts ! g \<noteq> clust \<longrightarrow>
           newClusts s ! g = clusts ! g"
  using assms unfolding rinv0_def Let_def by blast+

lemma rinv0I:
  assumes "length (used s) = length (positions clusts clust)"
    and "length (usedMZs s) = length (positions clusts clust)"
    and "length (newClusts s) = length clusts"
    and "clust \<le> M0" and "M0 \<le> maxClust s"
    and "\<forall>j<length (positions clusts clust). used s ! j = 0 \<or> used s ! j = 1 \<or> used s ! j = - 1"
    and "\<forall>j<length (positions clusts clust). used s ! j = 0 \<longrightarrow>
           newClusts s ! (positions clusts clust ! j) = clust"
    and "\<forall>j<length (positions clusts clust). used s ! j = - 1 \<longrightarrow>
           M0 < newClusts s ! (positions clusts clust ! j)
           \<and> newClusts s ! (positions clusts clust ! j) \<le> maxClust s"
    and "\<forall>j<length (positions clusts clust). used s ! j = 1 \<longrightarrow>
           newClusts s ! (positions clusts clust ! j) = maxClust s + 1
           \<and> usedMZs s ! j = mzs ! (positions clusts clust ! j)"
    and "\<forall>g<length clusts. clusts ! g \<noteq> clust \<longrightarrow> newClusts s ! g \<le> maxClust s"
    and "\<forall>g<length clusts. newClusts s ! g \<le> M0 \<longrightarrow> newClusts s ! g = clusts ! g"
    and "\<forall>g<length clusts. clusts ! g \<in> seen \<longrightarrow> M0 < newClusts s ! g"
    and "\<forall>g<length clusts. clusts ! g \<notin> seen \<longrightarrow> clusts ! g \<noteq> clust \<longrightarrow>
           newClusts s ! g = clusts ! g"
  shows "rinv0 mzs clusts M0 seen clust s"
  unfolding rinv0_def Let_def using assms by (intro conjI) assumption+


lemma rinv0_ids:
  assumes "rinv0 mzs clusts M0 seen clust s" and "g < length clusts"
  shows "newClusts s ! g \<le> maxClust s + 1"
    and "newClusts s ! g = maxClust s + 1 \<Longrightarrow>
         \<exists>j<length (positions clusts clust). positions clusts clust ! j = g \<and> used s ! j = 1"
proof -
  let ?pos = "positions clusts clust"
  have both: "newClusts s ! g \<le> maxClust s + 1 \<and>
     (newClusts s ! g = maxClust s + 1 \<longrightarrow> (\<exists>j<length ?pos. ?pos ! j = g \<and> used s ! j = 1))"
  proof (cases "clusts ! g = clust")
    case False
    then have "newClusts s ! g \<le> maxClust s"
      using rinv0D(10)[OF assms(1)] assms(2) by blast
    then show ?thesis by simp
  next
    case True
    from positions_mem[OF assms(2) True] obtain j where j: "j < length ?pos" "?pos ! j = g"
      by blast
    have u: "used s ! j = 0 \<or> used s ! j = 1 \<or> used s ! j = - 1"
      using rinv0D(6)[OF assms(1)] j(1) by blast
    have c0: "used s ! j = 0 \<Longrightarrow> newClusts s ! g = clust"
      using rinv0D(7)[OF assms(1)] j by blast
    have c1: "used s ! j = - 1 \<Longrightarrow> newClusts s ! g \<le> maxClust s"
      using rinv0D(8)[OF assms(1)] j by blast
    have c2: "used s ! j = 1 \<Longrightarrow> newClusts s ! g = maxClust s + 1"
      using rinv0D(9)[OF assms(1)] j by blast
    have b: "clust \<le> M0" "M0 \<le> maxClust s" using rinv0D(4,5)[OF assms(1)] by blast+
    have "newClusts s ! g \<le> maxClust s + 1"
      using u c0 c1 c2 b by (elim disjE) simp_all
    moreover have "newClusts s ! g = maxClust s + 1 \<longrightarrow> used s ! j = 1"
      using u c0 c1 b by (elim disjE) simp_all
    ultimately show ?thesis using j by blast
  qed
  then show "newClusts s ! g \<le> maxClust s + 1"
    and "newClusts s ! g = maxClust s + 1 \<Longrightarrow>
         \<exists>j<length ?pos. ?pos ! j = g \<and> used s ! j = 1"
    by blast+
qed

lemma take_signal_rinv0:
  assumes "rinv0 mzs clusts M0 seen clust s"
    and "c < length (positions clusts clust)" and "used s ! c = 0"
  shows "rinv0 mzs clusts M0 seen clust
           (take_signal (map (\<lambda>g. mzs ! g) (positions clusts clust)) (positions clusts clust) c s)"
proof -
  let ?pos = "positions clusts clust"
  let ?m = "length ?pos"
  let ?n = "length clusts"
  let ?p = "?pos ! c"
  let ?s1 = "take_signal (map (\<lambda>g. mzs ! g) ?pos) ?pos c s"
  have f: "used ?s1 = (used s)[c := 1]"
    "usedMZs ?s1 = (usedMZs s)[c := mzs ! ?p]"
    "newClusts ?s1 = (newClusts s)[?p := maxClust s + 1]"
    "maxClust ?s1 = maxClust s"
    using assms(2) by (simp_all add: take_signal_def)
  note len = rinv0D(1,2,3)[OF assms(1)]
  note b = rinv0D(4,5)[OF assms(1)]
  note u = rinv0D(6)[OF assms(1)]
  note i0 = rinv0D(7)[OF assms(1)]
  note im = rinv0D(8)[OF assms(1)]
  note i1 = rinv0D(9)[OF assms(1)]
  note o = rinv0D(10)[OF assms(1)]
  note lo = rinv0D(11)[OF assms(1)]
  note se = rinv0D(12)[OF assms(1)]
  note un = rinv0D(13)[OF assms(1)]
  have p: "?p < ?n" "clusts ! ?p = clust" using positions_nth[OF assms(2)] by simp_all
  have inj: "\<And>j. j < ?m \<Longrightarrow> (?pos ! j = ?p) = (j = c)"
    by (rule positions_inj[OF _ assms(2)])
  have nj: "\<And>j. j < ?m \<Longrightarrow> j \<noteq> c \<Longrightarrow> newClusts ?s1 ! (?pos ! j) = newClusts s ! (?pos ! j)"
  proof -
    fix j assume jj: "j < ?m" "j \<noteq> c"
    have "?p \<noteq> ?pos ! j" using inj[OF jj(1)] jj(2) by simp
    then show "newClusts ?s1 ! (?pos ! j) = newClusts s ! (?pos ! j)"
      unfolding f(3) by (rule nth_list_update_neq)
  qed
  have uj: "\<And>j. j < ?m \<Longrightarrow> j \<noteq> c \<Longrightarrow> used ?s1 ! j = used s ! j"
    by (simp add: f)
  have mj: "\<And>j. j < ?m \<Longrightarrow> j \<noteq> c \<Longrightarrow> usedMZs ?s1 ! j = usedMZs s ! j"
    by (simp add: f)
  have uc: "used ?s1 ! c = 1" "newClusts ?s1 ! ?p = maxClust s + 1" "usedMZs ?s1 ! c = mzs ! ?p"
    using assms(2) len p(1) by (simp_all add: f)
  have ng: "\<And>g. g < ?n \<Longrightarrow> g \<noteq> ?p \<Longrightarrow> newClusts ?s1 ! g = newClusts s ! g"
    by (simp add: f)
  have 1: "\<forall>j<?m. used ?s1 ! j = 0 \<or> used ?s1 ! j = 1 \<or> used ?s1 ! j = - 1"
    using u uj uc(1) by metis
  have 2: "\<forall>j<?m. used ?s1 ! j = 0 \<longrightarrow> newClusts ?s1 ! (?pos ! j) = clust"
    using i0 uj nj uc(1) by (metis zero_neq_one)
  have 3: "\<forall>j<?m. used ?s1 ! j = - 1 \<longrightarrow>
              M0 < newClusts ?s1 ! (?pos ! j) \<and> newClusts ?s1 ! (?pos ! j) \<le> maxClust ?s1"
  proof (intro allI impI)
    fix j assume j: "j < ?m" "used ?s1 ! j = - 1"
    then have "j \<noteq> c" using uc(1) by auto
    then show "M0 < newClusts ?s1 ! (?pos ! j) \<and> newClusts ?s1 ! (?pos ! j) \<le> maxClust ?s1"
      using im j uj[OF j(1)] nj[OF j(1)] f(4) by simp
  qed
  have 4: "\<forall>j<?m. used ?s1 ! j = 1 \<longrightarrow>
              newClusts ?s1 ! (?pos ! j) = maxClust ?s1 + 1 \<and> usedMZs ?s1 ! j = mzs ! (?pos ! j)"
  proof (intro allI impI)
    fix j assume j: "j < ?m" "used ?s1 ! j = 1"
    show "newClusts ?s1 ! (?pos ! j) = maxClust ?s1 + 1 \<and> usedMZs ?s1 ! j = mzs ! (?pos ! j)"
    proof (cases "j = c")
      case True
      then show ?thesis using uc f(4) by simp
    next
      case False
      then show ?thesis using i1 j uj[OF j(1)] nj[OF j(1)] mj[OF j(1)] f(4) by simp
    qed
  qed
  have 5: "\<forall>g<?n. clusts ! g \<noteq> clust \<longrightarrow> newClusts ?s1 ! g \<le> maxClust ?s1"
    using o ng p(2) f(4) by metis
  have 6: "\<forall>g<?n. newClusts ?s1 ! g \<le> M0 \<longrightarrow> newClusts ?s1 ! g = clusts ! g"
  proof (intro allI impI)
    fix g assume g: "g < ?n" "newClusts ?s1 ! g \<le> M0"
    then have "g \<noteq> ?p" using uc(2) b by auto
    then show "newClusts ?s1 ! g = clusts ! g" using lo g ng by simp
  qed
  have 7: "\<forall>g<?n. clusts ! g \<in> seen \<longrightarrow> M0 < newClusts ?s1 ! g"
  proof (intro allI impI)
    fix g assume g: "g < ?n" "clusts ! g \<in> seen"
    show "M0 < newClusts ?s1 ! g"
    proof (cases "g = ?p")
      case True
      then show ?thesis using uc(2) b by simp
    next
      case False
      then show ?thesis using se g ng by simp
    qed
  qed
  have 8: "\<forall>g<?n. clusts ! g \<notin> seen \<longrightarrow> clusts ! g \<noteq> clust \<longrightarrow> newClusts ?s1 ! g = clusts ! g"
    using un ng p(2) by metis
  have l1: "length (used ?s1) = ?m" "length (usedMZs ?s1) = ?m" "length (newClusts ?s1) = ?n"
    using len by (simp_all add: f)
  have b1: "M0 \<le> maxClust ?s1" using b f(4) by simp
  show ?thesis
    by (rule rinv0I[OF l1 b(1) b1 1 2 3 4 5 6 7 8])
qed

lemma close_cluster_fields:
  assumes "rinv0 mzs clusts M0 seen clust s"
    and "c < length (positions clusts clust)" and "used s ! c = 0"
  shows "newClusts (close_cluster clusts (positions clusts clust) c
           (take_signal (map (\<lambda>g. mzs ! g) (positions clusts clust)) (positions clusts clust) c s))
         = newClusts s"
    and "used (close_cluster clusts (positions clusts clust) c
           (take_signal (map (\<lambda>g. mzs ! g) (positions clusts clust)) (positions clusts clust) c s))
         = map (\<lambda>u. - \<bar>u\<bar>) (used s)"
    and "maxClust (close_cluster clusts (positions clusts clust) c
           (take_signal (map (\<lambda>g. mzs ! g) (positions clusts clust)) (positions clusts clust) c s))
         = maxClust s + 1"
    and "length (usedMZs (close_cluster clusts (positions clusts clust) c
           (take_signal (map (\<lambda>g. mzs ! g) (positions clusts clust)) (positions clusts clust) c s)))
         = length (usedMZs s)"
proof -
  let ?pos = "positions clusts clust"
  let ?p = "?pos ! c"
  have p: "clusts ! ?p = clust" using positions_nth[OF assms(2)] by simp
  have "newClusts s ! ?p = clust" using rinv0D(7)[OF assms(1)] assms(2,3) by blast
  then have "(newClusts s)[?p := clusts ! ?p] = newClusts s"
    using p by (metis list_update_id)
  moreover have "(used s)[c := 0] = used s" using assms(3) by (metis list_update_id)
  ultimately show
    "newClusts (close_cluster clusts ?pos c (take_signal (map (\<lambda>g. mzs ! g) ?pos) ?pos c s))
         = newClusts s"
    "used (close_cluster clusts ?pos c (take_signal (map (\<lambda>g. mzs ! g) ?pos) ?pos c s))
         = map (\<lambda>u. - \<bar>u\<bar>) (used s)"
    "maxClust (close_cluster clusts ?pos c (take_signal (map (\<lambda>g. mzs ! g) ?pos) ?pos c s))
         = maxClust s + 1"
    "length (usedMZs (close_cluster clusts ?pos c (take_signal (map (\<lambda>g. mzs ! g) ?pos) ?pos c s)))
         = length (usedMZs s)"
    by (simp_all add: close_cluster_def take_signal_def)
qed

lemma closed_rinv0:
  assumes "rinv0 mzs clusts M0 seen clust s"
    and "newClusts s2 = newClusts s" and "used s2 = map (\<lambda>u. - \<bar>u\<bar>) (used s)"
    and "maxClust s2 = maxClust s + 1" and "length (usedMZs s2) = length (usedMZs s)"
  shows "rinv0 mzs clusts M0 seen clust s2"
    and "\<forall>j<length (positions clusts clust). used s2 ! j \<noteq> 1"
proof -
  let ?pos = "positions clusts clust"
  let ?m = "length ?pos"
  let ?n = "length clusts"
  note len = rinv0D(1,2,3)[OF assms(1)]
  note b = rinv0D(4,5)[OF assms(1)]
  note u = rinv0D(6)[OF assms(1)]
  note i0 = rinv0D(7)[OF assms(1)]
  note im = rinv0D(8)[OF assms(1)]
  note i1 = rinv0D(9)[OF assms(1)]
  note o = rinv0D(10)[OF assms(1)]
  note lo = rinv0D(11)[OF assms(1)]
  note se = rinv0D(12)[OF assms(1)]
  note un = rinv0D(13)[OF assms(1)]
  have uj: "\<And>j. j < ?m \<Longrightarrow> used s2 ! j = - \<bar>used s ! j\<bar>"
    using len(1) by (simp add: assms(3))
  have 1: "\<forall>j<?m. used s2 ! j = 0 \<or> used s2 ! j = 1 \<or> used s2 ! j = - 1"
    using u uj by fastforce
  have 2: "\<forall>j<?m. used s2 ! j = 0 \<longrightarrow> newClusts s2 ! (?pos ! j) = clust"
    using i0 uj assms(2) by simp
  have 3: "\<forall>j<?m. used s2 ! j = - 1 \<longrightarrow>
              M0 < newClusts s2 ! (?pos ! j) \<and> newClusts s2 ! (?pos ! j) \<le> maxClust s2"
  proof (intro allI impI)
    fix j assume j: "j < ?m" "used s2 ! j = - 1"
    then have "used s ! j = 1 \<or> used s ! j = - 1" using u uj[OF j(1)] by fastforce
    then show "M0 < newClusts s2 ! (?pos ! j) \<and> newClusts s2 ! (?pos ! j) \<le> maxClust s2"
      using i1 im j(1) b assms(2,4) by fastforce
  qed
  have 4: "\<forall>j<?m. used s2 ! j \<noteq> 1"
  proof (intro allI impI)
    fix j assume "j < ?m"
    from uj[OF this] show "used s2 ! j \<noteq> 1" by simp
  qed
  have 5: "\<forall>g<?n. clusts ! g \<noteq> clust \<longrightarrow> newClusts s2 ! g \<le> maxClust s2"
    using o assms(2,4) by fastforce
  have l2: "length (used s2) = ?m" "length (usedMZs s2) = ?m" "length (newClusts s2) = ?n"
    using len assms(2,3,5) by simp_all
  have b2: "M0 \<le> maxClust s2" using b assms(4) by simp
  have 6: "\<forall>j<?m. used s2 ! j = 1 \<longrightarrow>
              newClusts s2 ! (?pos ! j) = maxClust s2 + 1 \<and> usedMZs s2 ! j = mzs ! (?pos ! j)"
    using 4 by blast
  have lo2: "\<forall>g<?n. newClusts s2 ! g \<le> M0 \<longrightarrow> newClusts s2 ! g = clusts ! g"
    and se2: "\<forall>g<?n. clusts ! g \<in> seen \<longrightarrow> M0 < newClusts s2 ! g"
    and un2: "\<forall>g<?n. clusts ! g \<notin> seen \<longrightarrow> clusts ! g \<noteq> clust \<longrightarrow> newClusts s2 ! g = clusts ! g"
    using lo se un unfolding assms(2) by blast+
  show "rinv0 mzs clusts M0 seen clust s2"
    by (rule rinv0I[OF l2 b(1) b2 1 2 3 6 5 lo2 se2 un2])
  show "\<forall>j<?m. used s2 ! j \<noteq> 1" by (rule 4)
qed

subsection \<open>The masses of a cluster under the updates of the output array\<close>

lemma positions_update_other:
  assumes "nc ! p \<noteq> c" and "v \<noteq> c"
  shows "positions (nc[p := v]) c = positions nc c"
proof -
  have "\<And>g. g < length nc \<Longrightarrow> (nc[p := v] ! g = c) = (nc ! g = c)"
  proof -
    fix g assume g: "g < length nc"
    show "(nc[p := v] ! g = c) = (nc ! g = c)"
    proof (cases "g = p")
      case True
      then show ?thesis using assms g by simp
    next
      case False
      then show ?thesis by simp
    qed
  qed
  then have "filter (\<lambda>g. nc[p := v] ! g = c) [0..<length nc]
      = filter (\<lambda>g. nc ! g = c) [0..<length nc]"
    by (intro filter_cong) simp_all
  then show ?thesis unfolding positions_def by simp
qed

lemma cluster_mzs_update_other:
  assumes "nc ! p \<noteq> c" and "v \<noteq> c"
  shows "cluster_mzs mzs (nc[p := v]) c = cluster_mzs mzs nc c"
  by (simp add: cluster_mzs_def positions_update_other[OF assms])

lemma positions_update_fresh:
  assumes "p < length nc" and "\<forall>g<length nc. nc ! g \<noteq> c"
  shows "positions (nc[p := c]) c = [p]"
proof -
  have "\<And>g. g < length nc \<Longrightarrow> (nc[p := c] ! g = c) = (g = p)"
  proof -
    fix g assume g: "g < length nc"
    show "(nc[p := c] ! g = c) = (g = p)"
    proof (cases "g = p")
      case True
      then show ?thesis using g by simp
    next
      case False
      then show ?thesis using assms(2) g by simp
    qed
  qed
  then have "filter (\<lambda>g. nc[p := c] ! g = c) [0..<length nc]
      = filter (\<lambda>g. g = p) [0..<length nc]"
    by (intro filter_cong) simp_all
  then have "positions (nc[p := c]) c = filter (\<lambda>g. g = p) [0..<length nc]"
    unfolding positions_def by simp
  then show ?thesis using filter_single_index[OF assms(1)] by simp
qed

lemma spread_ok_cong:
  "cluster_mzs mzs nc' c = cluster_mzs mzs nc c \<Longrightarrow>
   spread_ok mzs mdev nc' c = spread_ok mzs mdev nc c"
  by (simp add: spread_ok_def split: option.splits)

lemma spread_ok_single: "length (cluster_mzs mzs nc c) < 2 \<Longrightarrow> spread_ok mzs mdev nc c"
  by (simp add: spread_ok_def split: option.splits)

text \<open>The masses \<^verbatim>\<open>usedMZs[used == 1]\<close> of the growing sub-cluster are the masses of the
  signals that carry its id in the output array.\<close>

lemma used_mzs_eq_cluster_mzs:
  assumes "rinv0 mzs clusts M0 seen clust s"
  shows "used_mzs s = cluster_mzs mzs (newClusts s) (maxClust s + 1)"
proof -
  let ?pos = "positions clusts clust"
  let ?m = "length ?pos"
  let ?n = "length clusts"
  let ?Q = "\<lambda>g. newClusts s ! g = maxClust s + 1"
  note len = rinv0D(1,2,3)[OF assms]
  note b = rinv0D(4,5)[OF assms]
  note u = rinv0D(6)[OF assms]
  note i0 = rinv0D(7)[OF assms]
  note im = rinv0D(8)[OF assms]
  note i1 = rinv0D(9)[OF assms]
  have iff: "\<And>j. j < ?m \<Longrightarrow> (used s ! j = 1) = ?Q (?pos ! j)"
  proof -
    fix j assume j: "j < ?m"
    have "used s ! j = 0 \<or> used s ! j = 1 \<or> used s ! j = - 1" using u j by blast
    moreover have "used s ! j = 0 \<Longrightarrow> newClusts s ! (?pos ! j) = clust" using i0 j by blast
    moreover have "used s ! j = - 1 \<Longrightarrow> newClusts s ! (?pos ! j) \<le> maxClust s"
      using im j by blast
    moreover have "used s ! j = 1 \<Longrightarrow> newClusts s ! (?pos ! j) = maxClust s + 1"
      using i1 j by blast
    ultimately show "(used s ! j = 1) = ?Q (?pos ! j)" using b by (elim disjE) simp_all
  qed
  have "used_mzs s = map (\<lambda>j. usedMZs s ! j) (filter (\<lambda>j. used s ! j = 1) [0..<length (used s)])"
    unfolding used_mzs_def using len by (intro mask_select_by_index) simp
  also have "\<dots> = map (\<lambda>j. mzs ! (?pos ! j)) (filter (\<lambda>j. ?Q (?pos ! j)) [0..<?m])"
  proof -
    have "filter (\<lambda>j. used s ! j = 1) [0..<?m] = filter (\<lambda>j. ?Q (?pos ! j)) [0..<?m]"
      using iff by (intro filter_cong) simp_all
    moreover have "map (\<lambda>j. usedMZs s ! j) (filter (\<lambda>j. used s ! j = 1) [0..<?m])
        = map (\<lambda>j. mzs ! (?pos ! j)) (filter (\<lambda>j. used s ! j = 1) [0..<?m])"
      using i1 by (auto intro!: map_cong)
    ultimately show ?thesis using len(1) by simp
  qed
  also have "\<dots> = map (\<lambda>g. mzs ! g) (map (\<lambda>j. ?pos ! j) (filter (\<lambda>j. ?Q (?pos ! j)) [0..<?m]))"
    by (simp add: o_def)
  also have "map (\<lambda>j. ?pos ! j) (filter (\<lambda>j. ?Q (?pos ! j)) [0..<?m]) = filter ?Q ?pos"
    by (rule filter_by_index)
  also have "filter ?Q ?pos = filter ?Q [0..<?n]"
  proof -
    have "\<And>g. g < ?n \<Longrightarrow> ?Q g \<Longrightarrow> clusts ! g = clust"
      using rinv0_ids(2)[OF assms] positions_nth(2) by blast
    then have "filter (\<lambda>g. clusts ! g = clust \<and> ?Q g) [0..<?n] = filter ?Q [0..<?n]"
      by (intro filter_cong) auto
    then show ?thesis unfolding positions_def by (simp add: conj_commute)
  qed
  finally show ?thesis
    unfolding cluster_mzs_def positions_def using len(3) by simp
qed

subsection \<open>Seeding, accepting and closing keep the bound\<close>

lemma used_mzs_members:
  assumes "rinv0 mzs clusts M0 seen clust s"
  shows "set (used_mzs s) \<subseteq> set (map (\<lambda>g. mzs ! g) (positions clusts clust))"
    and "j < length (positions clusts clust) \<Longrightarrow> used s ! j = 1 \<Longrightarrow> used_mzs s \<noteq> []"
proof -
  let ?pos = "positions clusts clust"
  let ?m = "length ?pos"
  note len = rinv0D(1,2,3)[OF assms]
  note i1 = rinv0D(9)[OF assms]
  have e: "used_mzs s = map (\<lambda>j. usedMZs s ! j) (filter (\<lambda>j. used s ! j = 1) [0..<?m])"
    unfolding used_mzs_def using len mask_select_by_index[of "usedMZs s" "used s" "\<lambda>u. u = 1"]
    by simp
  show "set (used_mzs s) \<subseteq> set (map (\<lambda>g. mzs ! g) ?pos)"
  proof
    fix x assume "x \<in> set (used_mzs s)"
    then obtain j where j: "j < ?m" "used s ! j = 1" "x = usedMZs s ! j"
      unfolding e by auto
    then have "x = mzs ! (?pos ! j)" using i1 by simp
    then show "x \<in> set (map (\<lambda>g. mzs ! g) ?pos)" using j(1) by auto
  qed
  show "j < ?m \<Longrightarrow> used s ! j = 1 \<Longrightarrow> used_mzs s \<noteq> []"
    unfolding e by (auto simp: filter_empty_conv)
qed

lemma take_signal_newClusts:
  "newClusts (take_signal mzs' pos c s) = (newClusts s)[pos ! c := maxClust s + 1]"
  "maxClust (take_signal mzs' pos c s) = maxClust s"
  "used (take_signal mzs' pos c s) = (used s)[c := 1]"
  by (simp_all add: take_signal_def)

lemma take_signal_spread_other:
  assumes "rinv0 mzs clusts M0 seen clust s"
    and "c < length (positions clusts clust)" and "used s ! c = 0"
    and "M0 < c'" and "c' \<noteq> maxClust s + 1"
  shows "spread_ok mzs mdev
           (newClusts (take_signal mzs' (positions clusts clust) c s)) c'
         = spread_ok mzs mdev (newClusts s) c'"
proof -
  have "newClusts s ! (positions clusts clust ! c) = clust"
    using rinv0D(7)[OF assms(1)] assms(2,3) by blast
  then have "newClusts s ! (positions clusts clust ! c) \<noteq> c'"
    using rinv0D(4)[OF assms(1)] assms(4) by simp
  from cluster_mzs_update_other[OF this, of "maxClust s + 1" mzs] assms(5)
  show ?thesis
    unfolding take_signal_newClusts by (intro spread_ok_cong) simp
qed

lemma seed_rinv:
  assumes "rinv mzs clusts mdev M0 seen clust s"
    and "\<forall>j<length (positions clusts clust). used s ! j \<noteq> 1"
    and "c < length (positions clusts clust)" and "used s ! c = 0"
  shows "rinv mzs clusts mdev M0 seen clust
           (take_signal (map (\<lambda>g. mzs ! g) (positions clusts clust)) (positions clusts clust) c s)"
proof -
  let ?pos = "positions clusts clust"
  let ?s1 = "take_signal (map (\<lambda>g. mzs ! g) ?pos) ?pos c s"
  have r0: "rinv0 mzs clusts M0 seen clust s" and sp: "\<forall>c. M0 < c \<longrightarrow> spread_ok mzs mdev (newClusts s) c"
    using assms(1) by (simp_all add: rinv_def)
  have r1: "rinv0 mzs clusts M0 seen clust ?s1"
    by (rule take_signal_rinv0[OF r0 assms(3,4)])
  have p: "?pos ! c < length (newClusts s)"
    using positions_nth(1)[OF assms(3)] rinv0D(3)[OF r0] by simp
  have fresh: "\<forall>g<length (newClusts s). newClusts s ! g \<noteq> maxClust s + 1"
    using rinv0_ids(2)[OF r0] assms(2) rinv0D(3)[OF r0] by metis
  have "\<forall>c'. M0 < c' \<longrightarrow> spread_ok mzs mdev (newClusts ?s1) c'"
  proof (intro allI impI)
    fix c' assume c': "M0 < c'"
    show "spread_ok mzs mdev (newClusts ?s1) c'"
    proof (cases "c' = maxClust s + 1")
      case True
      have "positions (newClusts ?s1) c' = [?pos ! c]"
        unfolding take_signal_newClusts True by (rule positions_update_fresh[OF p fresh])
      then show ?thesis by (intro spread_ok_single) (simp add: cluster_mzs_def)
    next
      case False
      show ?thesis
        using take_signal_spread_other[OF r0 assms(3,4) c' False] sp c' by simp
    qed
  qed
  then show ?thesis using r1 by (simp add: rinv_def)
qed

lemma accept_rinv:
  assumes "rinv mzs clusts mdev M0 seen clust s"
    and "c < length (positions clusts clust)" and "used s ! c = 0"
    and "case mdev of None \<Rightarrow> True
         | Some b \<Rightarrow> ppm_dev (used_mzs (take_signal (map (\<lambda>g. mzs ! g) (positions clusts clust))
                                           (positions clusts clust) c s)) \<le> b"
  shows "rinv mzs clusts mdev M0 seen clust
           (take_signal (map (\<lambda>g. mzs ! g) (positions clusts clust)) (positions clusts clust) c s)"
proof -
  let ?pos = "positions clusts clust"
  let ?s1 = "take_signal (map (\<lambda>g. mzs ! g) ?pos) ?pos c s"
  have r0: "rinv0 mzs clusts M0 seen clust s" and sp: "\<forall>c. M0 < c \<longrightarrow> spread_ok mzs mdev (newClusts s) c"
    using assms(1) by (simp_all add: rinv_def)
  have r1: "rinv0 mzs clusts M0 seen clust ?s1"
    by (rule take_signal_rinv0[OF r0 assms(2,3)])
  have ke: "used_mzs ?s1 = cluster_mzs mzs (newClusts ?s1) (maxClust s + 1)"
    using used_mzs_eq_cluster_mzs[OF r1] by (simp add: take_signal_newClusts)
  have "\<forall>c'. M0 < c' \<longrightarrow> spread_ok mzs mdev (newClusts ?s1) c'"
  proof (intro allI impI)
    fix c' assume c': "M0 < c'"
    show "spread_ok mzs mdev (newClusts ?s1) c'"
    proof (cases "c' = maxClust s + 1")
      case True
      show ?thesis
        using assms(4) unfolding spread_ok_def True ke by (simp split: option.splits)
    next
      case False
      show ?thesis
        using take_signal_spread_other[OF r0 assms(2,3) c' False] sp c' by simp
    qed
  qed
  then show ?thesis using r1 by (simp add: rinv_def)
qed

lemma close_rinv:
  assumes "rinv mzs clusts mdev M0 seen clust s"
    and "c < length (positions clusts clust)" and "used s ! c = 0"
  shows "rinv mzs clusts mdev M0 seen clust
           (close_cluster clusts (positions clusts clust) c
             (take_signal (map (\<lambda>g. mzs ! g) (positions clusts clust)) (positions clusts clust) c s))"
    and "\<forall>j<length (positions clusts clust).
           used (close_cluster clusts (positions clusts clust) c
             (take_signal (map (\<lambda>g. mzs ! g) (positions clusts clust)) (positions clusts clust) c s))
             ! j \<noteq> 1"
    and "count_list (used (close_cluster clusts (positions clusts clust) c
             (take_signal (map (\<lambda>g. mzs ! g) (positions clusts clust)) (positions clusts clust) c s))) 0
         = count_list (used s) 0"
proof -
  let ?pos = "positions clusts clust"
  let ?s2 = "close_cluster clusts ?pos c (take_signal (map (\<lambda>g. mzs ! g) ?pos) ?pos c s)"
  have r0: "rinv0 mzs clusts M0 seen clust s" and sp: "\<forall>c. M0 < c \<longrightarrow> spread_ok mzs mdev (newClusts s) c"
    using assms(1) by (simp_all add: rinv_def)
  note f = close_cluster_fields[OF r0 assms(2,3)]
  note r2 = closed_rinv0[OF r0 f]
  show "rinv mzs clusts mdev M0 seen clust ?s2"
    using r2(1) sp unfolding rinv_def f(1) by simp
  show "\<forall>j<length ?pos. used ?s2 ! j \<noteq> 1" by (rule r2(2))
  show "count_list (used ?s2) 0 = count_list (used s) 0"
    unfolding f(2) by (rule count_list_neg_abs)
qed

subsection \<open>The loops terminate and keep the invariant\<close>

lemma local_mzs_bounds:
  assumes "length mzs = length clusts" and "list_all (\<lambda>x. 0 < x \<and> x < 1000000) mzs"
  shows "\<forall>x\<in>set (map (\<lambda>g. mzs ! g) (positions clusts clust)). 0 < x \<and> x < 1000000"
proof
  fix x assume "x \<in> set (map (\<lambda>g. mzs ! g) (positions clusts clust))"
  then obtain g where "g \<in> set (positions clusts clust)" "x = mzs ! g" by auto
  then have "g < length mzs" "x = mzs ! g" using assms(1) by (simp_all add: positions_set)
  then show "0 < x \<and> x < 1000000" using assms(2) by (simp add: list_all_length)
qed

lemma local_intensities_pos:
  assumes "length intensities = length clusts" and "list_all (\<lambda>x. 0 < x) intensities"
  shows "\<forall>x\<in>set (map (\<lambda>g. intensities ! g) (positions clusts clust)). 0 < x"
proof
  fix x assume "x \<in> set (map (\<lambda>g. intensities ! g) (positions clusts clust))"
  then obtain g where "g \<in> set (positions clusts clust)" "x = intensities ! g" by auto
  then have "g < length intensities" "x = intensities ! g"
    using assms(1) by (simp_all add: positions_set)
  then show "0 < x" using assms(2) by (simp add: list_all_length)
qed

lemma np_mean_pos:
  assumes "xs \<noteq> []" and "\<forall>x\<in>set xs. 0 < x"
  shows "0 < np_mean xs"
proof -
  have "xs \<noteq> [] \<Longrightarrow> \<forall>x\<in>set xs. 0 < x \<Longrightarrow> 0 < sum_list xs"
  proof (induction xs)
    case Nil
    then show ?case by simp
  next
    case (Cons x xs)
    then show ?case by (cases "xs = []") (simp_all add: add_pos_pos)
  qed
  then show ?thesis using assms by (simp add: np_mean_def)
qed

lemma marked_mean_nonzero:
  assumes "length mzs = length clusts" and "list_all (\<lambda>x. 0 < x \<and> x < 1000000) mzs"
    and "rinv0 mzs clusts M0 seen clust s"
    and "c < length (positions clusts clust)" and "used s ! c = 0"
  shows "np_mean (used_mzs (take_signal (map (\<lambda>g. mzs ! g) (positions clusts clust))
                              (positions clusts clust) c s)) \<noteq> 0"
proof -
  let ?pos = "positions clusts clust"
  let ?s1 = "take_signal (map (\<lambda>g. mzs ! g) ?pos) ?pos c s"
  have r1: "rinv0 mzs clusts M0 seen clust ?s1" by (rule take_signal_rinv0[OF assms(3,4,5)])
  have "used ?s1 ! c = 1"
    using assms(4) rinv0D(1)[OF assms(3)] by (simp add: take_signal_newClusts)
  then have ne: "used_mzs ?s1 \<noteq> []" by (rule used_mzs_members(2)[OF r1 assms(4)])
  have "\<forall>x\<in>set (used_mzs ?s1). 0 < x"
    using used_mzs_members(1)[OF r1] local_mzs_bounds[OF assms(1,2), of clust] by blast
  from np_mean_pos[OF ne this] show ?thesis by simp
qed

lemma refine_grow_total:
  assumes "length mzs = length clusts" and "list_all (\<lambda>x. 0 < x \<and> x < 1000000) mzs"
    and "rinv mzs clusts mdev M0 seen clust s"
    and "\<exists>j<length (positions clusts clust). used s ! j = 1"
    and "count_list (used s) 0 = Suc k"
  shows "\<exists>s'. refine_grow (map (\<lambda>g. mzs ! g) (positions clusts clust)) (positions clusts clust)
                 clusts cdev mdev lastdev s = Some (Inr s')
     \<and> rinv mzs clusts mdev M0 seen clust s'
     \<and> (\<forall>j<length (positions clusts clust). used s' ! j \<noteq> 1)
     \<and> count_list (used s') 0 \<le> Suc k"
  using assms(3,4,5)
proof (induction k arbitrary: s lastdev)
  case 0
  let ?pos = "positions clusts clust"
  let ?mzs' = "map (\<lambda>g. mzs ! g) ?pos"
  let ?c = "closest_signal ?mzs' s"
  let ?s1 = "take_signal ?mzs' ?pos ?c s"
  have r0: "rinv0 mzs clusts M0 seen clust s" using "0.prems"(1) by (simp add: rinv_def)
  have zero: "0 \<in> set (used s)" using "0.prems"(3) count_list_pos_iff[of "used s" 0] by simp
  from "0.prems"(2) obtain j where j: "j < length ?pos" "used s ! j = 1" by blast
  have c: "?c < length ?pos" "used s ! ?c = 0"
    using closest_signal_unused[of ?mzs' s, OF _ local_mzs_bounds[OF assms(1,2)] zero _
        used_mzs_members(2)[OF r0 j] used_mzs_members(1)[OF r0]]
      rinv0D(1,6)[OF r0] by simp_all
  have cnt: "count_list (used ?s1) 0 = 0"
    using count_list_take_one[of ?c "used s"] c rinv0D(1)[OF r0] "0.prems"(3)
    by (simp add: take_signal_newClusts)
  note mean = marked_mean_nonzero[OF assms(1,2) r0 c]
  have "refine_grow ?mzs' ?pos clusts cdev mdev lastdev s
          = Some (Inr (close_cluster clusts ?pos ?c ?s1))"
    by (subst refine_grow.simps) (simp add: Let_def cnt mean)
  then show ?case
    using close_rinv[OF "0.prems"(1) c] "0.prems"(3) by simp
next
  case (Suc k)
  let ?pos = "positions clusts clust"
  let ?mzs' = "map (\<lambda>g. mzs ! g) ?pos"
  let ?c = "closest_signal ?mzs' s"
  let ?s1 = "take_signal ?mzs' ?pos ?c s"
  let ?dev = "ppm_dev (used_mzs ?s1)"
  have r0: "rinv0 mzs clusts M0 seen clust s" using Suc.prems(1) by (simp add: rinv_def)
  have zero: "0 \<in> set (used s)" using Suc.prems(3) count_list_pos_iff[of "used s" 0] by simp
  from Suc.prems(2) obtain j where j: "j < length ?pos" "used s ! j = 1" by blast
  have c: "?c < length ?pos" "used s ! ?c = 0"
    using closest_signal_unused[of ?mzs' s, OF _ local_mzs_bounds[OF assms(1,2)] zero _
        used_mzs_members(2)[OF r0 j] used_mzs_members(1)[OF r0]]
      rinv0D(1,6)[OF r0] by simp_all
  have cnt: "count_list (used ?s1) 0 = Suc k"
    using count_list_take_one[of ?c "used s"] c rinv0D(1)[OF r0] Suc.prems(3)
    by (simp add: take_signal_newClusts)
  note mean = marked_mean_nonzero[OF assms(1,2) r0 c]
  show ?case
  proof (cases "?dev - lastdev > cdev \<or> (case mdev of None \<Rightarrow> False | Some b \<Rightarrow> ?dev > b)")
    case True
    have "refine_grow ?mzs' ?pos clusts cdev mdev lastdev s
            = Some (Inr (close_cluster clusts ?pos ?c ?s1))"
      using True mean by (subst refine_grow.simps) (simp add: Let_def)
    then show ?thesis
      using close_rinv[OF Suc.prems(1) c] Suc.prems(3) by simp
  next
    case False
    have step: "refine_grow ?mzs' ?pos clusts cdev mdev lastdev s
         = refine_grow ?mzs' ?pos clusts cdev mdev ?dev ?s1"
      using False cnt mean by (subst refine_grow.simps) (simp add: Let_def)
    have acc: "case mdev of None \<Rightarrow> True | Some b \<Rightarrow> ?dev \<le> b"
      using False by (simp split: option.splits)
    have r1: "rinv mzs clusts mdev M0 seen clust ?s1"
      by (rule accept_rinv[OF Suc.prems(1) c acc])
    have one: "\<exists>j<length ?pos. used ?s1 ! j = 1"
      using c(1) rinv0D(1)[OF r0] by (intro exI[of _ ?c]) (simp add: take_signal_newClusts)
    from Suc.IH[OF r1 one cnt, of ?dev] obtain s' where s':
      "refine_grow ?mzs' ?pos clusts cdev mdev ?dev ?s1 = Some (Inr s')"
      "rinv mzs clusts mdev M0 seen clust s'"
      "\<forall>j<length ?pos. used s' ! j \<noteq> 1"
      "count_list (used s') 0 \<le> Suc k"
      by blast
    then show ?thesis using step by auto
  qed
qed

lemma refine_while_total:
  assumes "length mzs = length clusts" and "list_all (\<lambda>x. 0 < x \<and> x < 1000000) mzs"
    and "length intensities = length clusts" and "list_all (\<lambda>x. 0 < x) intensities"
    and "rinv mzs clusts mdev M0 seen clust s"
    and "\<forall>j<length (positions clusts clust). used s ! j \<noteq> 1"
    and "count_list (used s) 0 = u"
  shows "\<exists>s'. refine_while (map (\<lambda>g. mzs ! g) (positions clusts clust))
                 (map (\<lambda>g. intensities ! g) (positions clusts clust))
                 (positions clusts clust) clusts cdev mdev s = Some (Inr s')
     \<and> rinv mzs clusts mdev M0 seen clust s'
     \<and> count_list (used s') 0 = 0"
  using assms(5,6,7)
proof (induction u arbitrary: s rule: less_induct)
  case (less u)
  let ?pos = "positions clusts clust"
  let ?mzs' = "map (\<lambda>g. mzs ! g) ?pos"
  let ?ints' = "map (\<lambda>g. intensities ! g) ?pos"
  let ?c = "seed_signal ?ints' s"
  let ?s1 = "take_signal ?mzs' ?pos ?c s"
  have r0: "rinv0 mzs clusts M0 seen clust s" using less.prems(1) by (simp add: rinv_def)
  show ?case
  proof (cases "u = 0")
    case True
    then have "refine_while ?mzs' ?ints' ?pos clusts cdev mdev s = Some (Inr s)"
      using less.prems(3) by (subst refine_while.simps) simp
    then show ?thesis using less.prems(1,3) True by simp
  next
    case False
    then have zero: "0 \<in> set (used s)"
      using less.prems(3) count_list_pos_iff[of "used s" 0] by simp
    have c: "?c < length ?pos" "used s ! ?c = 0"
      using seed_signal_unused[of ?ints' s, OF _ local_intensities_pos[OF assms(3,4)] zero]
        rinv0D(1)[OF r0] by simp_all
    have r1: "rinv mzs clusts mdev M0 seen clust ?s1"
      by (rule seed_rinv[OF less.prems(1,2) c])
    have cnt: "Suc (count_list (used ?s1) 0) = u"
      using count_list_take_one[of ?c "used s"] c rinv0D(1)[OF r0] less.prems(3)
      by (simp add: take_signal_newClusts)
    have pos_u: "0 < count_list (used s) 0" using False less.prems(3) by simp
    show ?thesis
    proof (cases "count_list (used ?s1) 0 = 0")
      case True
      have "refine_while ?mzs' ?ints' ?pos clusts cdev mdev ?s1 = Some (Inr ?s1)"
        using True by (subst refine_while.simps) simp
      then have "refine_while ?mzs' ?ints' ?pos clusts cdev mdev s = Some (Inr ?s1)"
        using True pos_u by (subst refine_while.simps) (simp add: Let_def)
      then show ?thesis using r1 True by simp
    next
      case F2: False
      then obtain k where k: "count_list (used ?s1) 0 = Suc k"
        by (cases "count_list (used ?s1) 0") simp_all
      have one: "\<exists>j<length ?pos. used ?s1 ! j = 1"
        using c(1) rinv0D(1)[OF r0] by (intro exI[of _ ?c]) (simp add: take_signal_newClusts)
      from refine_grow_total[OF assms(1,2) r1 one k, of cdev 0] obtain s2 where s2:
        "refine_grow ?mzs' ?pos clusts cdev mdev 0 ?s1 = Some (Inr s2)"
        "rinv mzs clusts mdev M0 seen clust s2"
        "\<forall>j<length ?pos. used s2 ! j \<noteq> 1"
        "count_list (used s2) 0 \<le> Suc k"
        by blast
      have lt: "count_list (used s2) 0 < u" using s2(4) k cnt by simp
      from less.IH[OF lt s2(2,3) refl] obtain s' where s':
        "refine_while ?mzs' ?ints' ?pos clusts cdev mdev s2 = Some (Inr s')"
        "rinv mzs clusts mdev M0 seen clust s'" "count_list (used s') 0 = 0"
        by blast
      have "refine_while ?mzs' ?ints' ?pos clusts cdev mdev s = Some (Inr s')"
        using F2 pos_u s2(1) s'(1) by (subst refine_while.simps) (simp add: Let_def)
      then show ?thesis using s'(2,3) by simp
    qed
  qed
qed

subsection \<open>The loop over the crude clusters\<close>

lemma local_arrays:
  shows "np_where (map (\<lambda>c. c = clust) clusts) = positions clusts clust"
    and "length xs = length clusts \<Longrightarrow>
         mask_select xs (map (\<lambda>c. c = clust) clusts) = map (\<lambda>g. xs ! g) (positions clusts clust)"
  unfolding positions_def
  by (rule np_where_map, rule mask_select_by_index)

lemma finvD:
  assumes "finv mzs clusts mdev M0 seen nc mc"
  shows "length nc = length clusts" and "M0 \<le> mc"
    and "\<forall>g<length clusts. nc ! g \<le> mc + 1"
    and "\<forall>g<length clusts. nc ! g \<le> M0 \<longrightarrow> nc ! g = clusts ! g"
    and "\<forall>g<length clusts. clusts ! g \<in> seen \<longrightarrow> M0 < nc ! g"
    and "\<forall>g<length clusts. clusts ! g \<notin> seen \<longrightarrow> nc ! g = clusts ! g"
    and "\<forall>c. M0 < c \<longrightarrow> spread_ok mzs mdev nc c"
  using assms unfolding finv_def Let_def by blast+

lemma finvI:
  assumes "length nc = length clusts" and "M0 \<le> mc"
    and "\<forall>g<length clusts. nc ! g \<le> mc + 1"
    and "\<forall>g<length clusts. nc ! g \<le> M0 \<longrightarrow> nc ! g = clusts ! g"
    and "\<forall>g<length clusts. clusts ! g \<in> seen \<longrightarrow> M0 < nc ! g"
    and "\<forall>g<length clusts. clusts ! g \<notin> seen \<longrightarrow> nc ! g = clusts ! g"
    and "\<forall>c. M0 < c \<longrightarrow> spread_ok mzs mdev nc c"
  shows "finv mzs clusts mdev M0 seen nc mc"
  unfolding finv_def Let_def using assms by (intro conjI) assumption+

lemma init_rinv:
  assumes f: "finv mzs clusts mdev M0 seen nc mc" and c: "clust \<le> M0" "clust \<notin> seen"
  shows "rinv mzs clusts mdev M0 seen clust
           \<lparr>used = replicate (length (positions clusts clust)) 0,
            usedMZs = replicate (length (positions clusts clust)) 0,
            newClusts = nc, maxClust = mc + 1\<rparr>"
proof -
  let ?pos = "positions clusts clust"
  let ?s = "\<lparr>used = replicate (length ?pos) 0, usedMZs = replicate (length ?pos) (0::real),
            newClusts = nc, maxClust = mc + 1\<rparr>"
  note d = finvD[OF f]
  have "rinv0 mzs clusts M0 seen clust ?s"
  proof (rule rinv0I)
    show "length (used ?s) = length ?pos" by simp
    show "length (usedMZs ?s) = length ?pos" by simp
    show "length (newClusts ?s) = length clusts" using d(1) by simp
    show "clust \<le> M0" by (rule c(1))
    show "M0 \<le> maxClust ?s" using d(2) by simp
    show "\<forall>j<length ?pos. used ?s ! j = 0 \<or> used ?s ! j = 1 \<or> used ?s ! j = - 1" by simp
    show "\<forall>j<length ?pos. used ?s ! j = 0 \<longrightarrow> newClusts ?s ! (?pos ! j) = clust"
    proof (intro allI impI)
      fix j assume j: "j < length ?pos"
      note p = positions_nth[OF j]
      have "nc ! (?pos ! j) = clusts ! (?pos ! j)" using d(6) p c(2) by simp
      then show "newClusts ?s ! (?pos ! j) = clust" using p(2) by simp
    qed
    show "\<forall>j<length ?pos. used ?s ! j = - 1 \<longrightarrow>
           M0 < newClusts ?s ! (?pos ! j) \<and> newClusts ?s ! (?pos ! j) \<le> maxClust ?s" by simp
    show "\<forall>j<length ?pos. used ?s ! j = 1 \<longrightarrow>
           newClusts ?s ! (?pos ! j) = maxClust ?s + 1 \<and> usedMZs ?s ! j = mzs ! (?pos ! j)" by simp
    show "\<forall>g<length clusts. clusts ! g \<noteq> clust \<longrightarrow> newClusts ?s ! g \<le> maxClust ?s"
      using d(3) by simp
    show "\<forall>g<length clusts. newClusts ?s ! g \<le> M0 \<longrightarrow> newClusts ?s ! g = clusts ! g"
      using d(4) by simp
    show "\<forall>g<length clusts. clusts ! g \<in> seen \<longrightarrow> M0 < newClusts ?s ! g"
      using d(5) by simp
    show "\<forall>g<length clusts. clusts ! g \<notin> seen \<longrightarrow> clusts ! g \<noteq> clust \<longrightarrow>
           newClusts ?s ! g = clusts ! g"
      using d(6) by simp
  qed
  moreover have "\<forall>c. M0 < c \<longrightarrow> spread_ok mzs mdev (newClusts ?s) c" using d(7) by simp
  ultimately show ?thesis unfolding rinv_def by (rule conjI)
qed

lemma finish_finv:
  assumes r: "rinv mzs clusts mdev M0 seen clust s" and z: "count_list (used s) 0 = 0"
  shows "finv mzs clusts mdev M0 (insert clust seen) (newClusts s) (maxClust s)"
proof -
  let ?pos = "positions clusts clust"
  have r0: "rinv0 mzs clusts M0 seen clust s" using r by (simp add: rinv_def)
  note d = rinv0D[OF r0]
  have nz: "used s ! j \<noteq> 0" if "j < length ?pos" for j
  proof
    assume "used s ! j = 0"
    then have "0 \<in> set (used s)" using that d(1) by (metis nth_mem)
    then show False using z count_list_pos_iff[of "used s" 0] by simp
  qed
  have own: "M0 < newClusts s ! g \<and> newClusts s ! g \<le> maxClust s + 1"
    if g: "g < length clusts" "clusts ! g = clust" for g
  proof -
    from positions_mem[OF g] obtain j where j: "j < length ?pos" "?pos ! j = g" by blast
    have "used s ! j = 1 \<or> used s ! j = - 1" using d(6) j(1) nz[OF j(1)] by blast
    then show ?thesis
    proof
      assume "used s ! j = 1"
      then have "newClusts s ! g = maxClust s + 1" using d(9) j by blast
      then show ?thesis using d(5) by simp
    next
      assume "used s ! j = - 1"
      then have "M0 < newClusts s ! g \<and> newClusts s ! g \<le> maxClust s" using d(8) j by blast
      then show ?thesis by simp
    qed
  qed
  show ?thesis
  proof (rule finvI)
    show "length (newClusts s) = length clusts" by (rule d(3))
    show "M0 \<le> maxClust s" by (rule d(5))
    show "\<forall>g<length clusts. newClusts s ! g \<le> maxClust s + 1"
    proof (intro allI impI)
      fix g assume g: "g < length clusts"
      show "newClusts s ! g \<le> maxClust s + 1"
      proof (cases "clusts ! g = clust")
        case True then show ?thesis using own[OF g] by simp
      next
        case False
        then have "newClusts s ! g \<le> maxClust s" using d(10) g by blast
        then show ?thesis by simp
      qed
    qed
    show "\<forall>g<length clusts. newClusts s ! g \<le> M0 \<longrightarrow> newClusts s ! g = clusts ! g"
      by (rule d(11))
    show "\<forall>g<length clusts. clusts ! g \<in> insert clust seen \<longrightarrow> M0 < newClusts s ! g"
    proof (intro allI impI)
      fix g assume g: "g < length clusts" "clusts ! g \<in> insert clust seen"
      show "M0 < newClusts s ! g"
      proof (cases "clusts ! g = clust")
        case True then show ?thesis using own[OF g(1)] by simp
      next
        case False
        then have "clusts ! g \<in> seen" using g(2) by simp
        then show ?thesis using d(12) g(1) by blast
      qed
    qed
    show "\<forall>g<length clusts. clusts ! g \<notin> insert clust seen \<longrightarrow> newClusts s ! g = clusts ! g"
      using d(13) by simp
    show "\<forall>c. M0 < c \<longrightarrow> spread_ok mzs mdev (newClusts s) c" using r by (simp add: rinv_def)
  qed
qed

lemma refine_for_total:
  assumes pre: "refine_pre mzs intensities clusts"
    and ps: "\<forall>p\<in>set ps. int (fst p) = snd p \<and> snd p \<le> M0"
    and dist: "distinct (map snd ps)"
    and disj: "snd ` set ps \<inter> seen = {}"
    and f: "finv mzs clusts mdev M0 seen nc mc"
  shows "\<exists>out mc'. refine_for mzs intensities clusts cdev mdev ps nc mc = Some (Inr out)
          \<and> finv mzs clusts mdev M0 (seen \<union> {c \<in> snd ` set ps. 1 < count_list clusts c}) out mc'"
  using ps dist disj f
proof (induction ps arbitrary: seen nc mc)
  case Nil
  then show ?case by auto
next
  case (Cons p rest)
  obtain i clust where p: "p = (i, clust)" by (cases p)
  have ic: "int i = clust" "clust \<le> M0" using Cons.prems(1) p by simp_all
  have fresh: "clust \<notin> seen" using Cons.prems(3) p by auto
  have rest: "\<forall>p\<in>set rest. int (fst p) = snd p \<and> snd p \<le> M0" "distinct (map snd rest)"
    using Cons.prems(1,2) by simp_all
  have len: "length mzs = length clusts" "length intensities = length clusts"
    and mzb: "list_all (\<lambda>x. 0 < x \<and> x < 1000000) mzs"
    and ipos: "list_all (\<lambda>x. 0 < x) intensities"
    using pre by (simp_all add: refine_pre_def)
  show ?case
  proof (cases "1 < count_list clusts clust")
    case False
    have eq: "refine_for mzs intensities clusts cdev mdev (p # rest) nc mc
        = refine_for mzs intensities clusts cdev mdev rest nc mc"
      using False ic(1) p by simp
    have d2: "snd ` set rest \<inter> seen = {}" using Cons.prems(3) by auto
    have s: "seen \<union> {c \<in> snd ` set (p # rest). 1 < count_list clusts c}
           = seen \<union> {c \<in> snd ` set rest. 1 < count_list clusts c}"
      using False p by auto
    show ?thesis
      unfolding eq s by (rule Cons.IH[OF rest d2 Cons.prems(4)])
  next
    case True
    let ?pos = "positions clusts clust"
    let ?s0 = "\<lparr>used = replicate (length ?pos) 0, usedMZs = replicate (length ?pos) (0::real),
            newClusts = nc, maxClust = mc + 1\<rparr>"
    have r: "rinv mzs clusts mdev M0 seen clust ?s0"
      by (rule init_rinv[OF Cons.prems(4) ic(2) fresh])
    have no1: "\<forall>j<length ?pos. used ?s0 ! j \<noteq> 1" by simp
    from refine_while_total[OF len(1) mzb len(2) ipos r no1 refl, of cdev] obtain s' where s':
      "refine_while (map (\<lambda>g. mzs ! g) ?pos) (map (\<lambda>g. intensities ! g) ?pos) ?pos
         clusts cdev mdev ?s0 = Some (Inr s')"
      "rinv mzs clusts mdev M0 seen clust s'" "count_list (used s') 0 = 0"
      by blast
    have eq: "refine_for mzs intensities clusts cdev mdev (p # rest) nc mc
        = refine_for mzs intensities clusts cdev mdev rest (newClusts s') (maxClust s')"
      using True ic(1) p len s'(1)
      by (simp add: Let_def local_arrays)
    have f': "finv mzs clusts mdev M0 (insert clust seen) (newClusts s') (maxClust s')"
      by (rule finish_finv[OF s'(2,3)])
    have d2: "snd ` set rest \<inter> insert clust seen = {}"
      using Cons.prems(2,3) p by auto
    have s: "seen \<union> {c \<in> snd ` set (p # rest). 1 < count_list clusts c}
           = insert clust seen \<union> {c \<in> snd ` set rest. 1 < count_list clusts c}"
      using True p by auto
    show ?thesis
      unfolding eq s by (rule Cons.IH[OF rest d2 f'])
  qed
qed

subsection \<open>Dense cluster ids\<close>

lemma enumerate_unique_dense:
  assumes "set clusts = int ` {0..<k}"
  shows "enumerate 0 (np_unique clusts) = zip [0..<k] (map int [0..<k])"
proof -
  have "np_unique clusts = map int [0..<k]"
    by (rule sorted_distinct_upto) (simp_all add: np_unique_def assms)
  then show ?thesis by (simp add: enumerate_eq_zip)
qed

lemma dense_pairs:
  assumes "set clusts = int ` {0..<k}"
  shows "\<forall>p\<in>set (zip [0..<k] (map int [0..<k])). int (fst p) = snd p \<and> snd p \<le> np_max clusts"
    and "distinct (map snd (zip [0..<k] (map int [0..<k])))"
    and "snd ` set (zip [0..<k] (map int [0..<k])) = set clusts"
proof -
  show "\<forall>p\<in>set (zip [0..<k] (map int [0..<k])). int (fst p) = snd p \<and> snd p \<le> np_max clusts"
  proof
    fix p assume "p \<in> set (zip [0..<k] (map int [0..<k]))"
    then obtain j where j: "j < k" "p = (j, int j)"
      by (auto simp: set_zip)
    then have "int j \<in> set clusts" using assms by simp
    then show "int (fst p) = snd p \<and> snd p \<le> np_max clusts"
      using j np_max_ge by simp
  qed
  have m: "map snd (zip [0..<k] (map int [0..<k])) = map int [0..<k]" by simp
  show "distinct (map snd (zip [0..<k] (map int [0..<k])))"
    unfolding m by (simp add: distinct_map)
  have "snd ` set (zip [0..<k] (map int [0..<k])) = set (map snd (zip [0..<k] (map int [0..<k])))"
    by (rule set_map[symmetric])
  also have "\<dots> = set clusts" unfolding m using assms by simp
  finally show "snd ` set (zip [0..<k] (map int [0..<k])) = set clusts" .
qed

lemma finv_start:
  "finv mzs clusts mdev (np_max clusts) {} clusts (np_max clusts)"
proof (rule finvI)
  show "\<forall>g<length clusts. clusts ! g \<le> np_max clusts + 1"
  proof (intro allI impI)
    fix g assume "g < length clusts"
    then have "clusts ! g \<le> np_max clusts" by (intro np_max_ge nth_mem)
    then show "clusts ! g \<le> np_max clusts + 1" by simp
  qed
  show "\<forall>c. np_max clusts < c \<longrightarrow> spread_ok mzs mdev clusts c"
  proof (intro allI impI)
    fix c assume c: "np_max clusts < c"
    have "positions clusts c = []"
    proof (rule ccontr)
      assume "positions clusts c \<noteq> []"
      then obtain g where "g \<in> set (positions clusts c)" by (cases "positions clusts c") auto
      then have "g < length clusts" "clusts ! g = c" by (simp_all add: positions_set)
      then have "c \<le> np_max clusts" using np_max_ge[of c clusts] nth_mem by blast
      then show False using c by simp
    qed
    then show "spread_ok mzs mdev clusts c"
      by (intro spread_ok_single) (simp add: cluster_mzs_def)
  qed
qed simp_all

lemma finv_spread_all:
  assumes f: "finv mzs clusts mdev M0 {c \<in> set clusts. 1 < count_list clusts c} out mc"
  shows "spread_ok mzs mdev out c"
proof (cases "M0 < c")
  case True
  then show ?thesis using finvD(7)[OF f] by blast
next
  case False
  note d = finvD[OF f]
  have sub: "set (positions out c) \<subseteq> set (positions clusts c)"
  proof
    fix g assume "g \<in> set (positions out c)"
    then have g: "g < length clusts" "out ! g = c" using d(1) by (simp_all add: positions_set)
    then have "out ! g = clusts ! g" using d(4) False by simp
    then show "g \<in> set (positions clusts c)" using g by (simp add: positions_set)
  qed
  have small: "length (positions out c) \<le> 1"
  proof (cases "positions out c = []")
    case True then show ?thesis by simp
  next
    case ne: False
    then obtain g where gm: "g \<in> set (positions out c)" by (cases "positions out c") auto
    then have g: "g < length clusts" "out ! g = c" using d(1) by (simp_all add: positions_set)
    have "\<not> M0 < out ! g" using g(2) False by simp
    then have "clusts ! g \<notin> {c \<in> set clusts. 1 < count_list clusts c}" using d(5) g(1) by blast
    moreover have "clusts ! g = c" using sub gm by (auto simp: positions_set)
    moreover have "clusts ! g \<in> set clusts" using g(1) by simp
    ultimately have "count_list clusts c \<le> 1" by auto
    then have "length (positions clusts c) \<le> 1" by (simp add: positions_length)
    moreover have "length (positions out c) \<le> length (positions clusts c)"
      using sub positions_distinct[of out c] positions_distinct[of clusts c]
      by (metis card_mono distinct_card List.finite_set)
    ultimately show ?thesis by simp
  qed
  show ?thesis by (intro spread_ok_single) (use small in \<open>simp add: cluster_mzs_def\<close>)
qed

lemma refine_clustering_total:
  assumes pre: "refine_pre mzs intensities clusts"
    and ne: "clusts \<noteq> []" and dense: "set clusts = int ` {0..<k}"
  shows "\<exists>out mc. refine_clustering mzs intensities clusts cdev mdev = Some (Inr out)
          \<and> finv mzs clusts mdev (np_max clusts) {c \<in> set clusts. 1 < count_list clusts c} out mc"
proof -
  let ?ps = "zip [0..<k] (map int [0..<k])"
  note dp = dense_pairs[OF dense]
  have e: "{} \<union> {c \<in> snd ` set ?ps. 1 < count_list clusts c}
       = {c \<in> set clusts. 1 < count_list clusts c}"
    unfolding dp(3) by simp
  have d0: "snd ` set ?ps \<inter> {} = {}" by simp
  from refine_for_total[OF pre dp(1) dp(2) d0 finv_start, of cdev mdev]
  show ?thesis
    unfolding e refine_clustering_def enumerate_unique_dense[OF dense] using ne by simp
qed


subsection \<open>No signal is dropped\<close>

lemma list_all_update:
  assumes "list_all P xs" and "i < length xs \<Longrightarrow> P v"
  shows "list_all P (xs[i := v])"
proof (cases "i < length xs")
  case True
  then show ?thesis
    using assms set_update_subset_insert[of xs i v] by (auto simp: list_all_iff)
next
  case False
  then have "xs[i := v] = xs" by (intro list_update_beyond) simp
  then show ?thesis using assms(1) by simp
qed

lemma take_signal_labelled:
  assumes "labelled n s"
  shows "labelled n (take_signal mzs' pos c s)"
  using assms by (simp add: labelled_def take_signal_def list_all_update)

lemma close_cluster_labelled:
  assumes "length clusts = n" and "list_all (\<lambda>c. 0 \<le> c) clusts" and "labelled n s"
  shows "labelled n (close_cluster clusts pos c s)"
proof -
  have "pos ! c < length (newClusts s) \<Longrightarrow> 0 \<le> clusts ! (pos ! c)"
    using assms by (simp add: labelled_def list_all_length)
  then show ?thesis
    using assms(3) by (simp add: labelled_def close_cluster_def list_all_update)
qed

lemma refine_grow_labelled:
  assumes "refine_grow mzs' pos clusts cdev mdev lastdev s = Some r"
  shows "list_all (\<lambda>c. 0 \<le> c) clusts \<longrightarrow> labelled (length clusts) s
         \<longrightarrow> (\<forall>s'. r = Inr s' \<longrightarrow> labelled (length clusts) s')"
    (is "?Q mzs' pos clusts cdev mdev lastdev s r")
proof (rule refine_grow.raw_induct[where P = ?Q, OF _ assms])
  fix grow :: "real list \<Rightarrow> nat list \<Rightarrow> int list \<Rightarrow> real \<Rightarrow> real option \<Rightarrow> real \<Rightarrow> rstate
               \<Rightarrow> (error + rstate) option"
    and mzs' pos clusts cdev mdev lastdev s r
  assume IH: "\<And>mzs' pos clusts cdev mdev lastdev s r.
      grow mzs' pos clusts cdev mdev lastdev s = Some r \<Longrightarrow> ?Q mzs' pos clusts cdev mdev lastdev s r"
    and step: "(let closest = closest_signal mzs' s;
           s1 = take_signal mzs' pos closest s
       in if np_mean (used_mzs s1) = 0 then Some (Inl ZeroDivisionError)
          else
            (let newPPMDev = ppm_dev (used_mzs s1)
             in if count_list (used s1) 0 = 0 \<or> newPPMDev - lastdev > cdev
                   \<or> (case mdev of None \<Rightarrow> False | Some b \<Rightarrow> newPPMDev > b)
                then Some (Inr (close_cluster clusts pos closest s1))
                else grow mzs' pos clusts cdev mdev newPPMDev s1)) = Some r"
  show "?Q mzs' pos clusts cdev mdev lastdev s r"
  proof (intro impI allI)
    fix s' assume nn: "list_all (\<lambda>c. 0 \<le> c) clusts" and l: "labelled (length clusts) s"
      and r: "r = Inr s'"
    let ?c = "closest_signal mzs' s"
    let ?s1 = "take_signal mzs' pos ?c s"
    let ?dev = "ppm_dev (used_mzs ?s1)"
    have l1: "labelled (length clusts) ?s1" by (rule take_signal_labelled[OF l])
    have mean: "np_mean (used_mzs ?s1) \<noteq> 0"
    proof
      assume "np_mean (used_mzs ?s1) = 0"
      then have "r = Inl ZeroDivisionError" using step by (simp add: Let_def)
      then show False using r by simp
    qed
    show "labelled (length clusts) s'"
    proof (cases "count_list (used ?s1) 0 = 0 \<or> ?dev - lastdev > cdev
             \<or> (case mdev of None \<Rightarrow> False | Some b \<Rightarrow> ?dev > b)")
      case True
      then have "r = Inr (close_cluster clusts pos ?c ?s1)"
        using step mean by (simp add: Let_def)
      then have "s' = close_cluster clusts pos ?c ?s1" using r by simp
      then show ?thesis using close_cluster_labelled[OF refl nn l1] by simp
    next
      case False
      then have "grow mzs' pos clusts cdev mdev ?dev ?s1 = Some r"
        using step mean by (simp add: Let_def)
      from IH[OF this] nn l1 r show ?thesis by blast
    qed
  qed
qed

lemma refine_while_labelled:
  assumes "refine_while mzs' intensities' pos clusts cdev mdev s = Some r"
  shows "list_all (\<lambda>c. 0 \<le> c) clusts \<longrightarrow> labelled (length clusts) s
         \<longrightarrow> (\<forall>s'. r = Inr s' \<longrightarrow> labelled (length clusts) s')"
    (is "?Q mzs' intensities' pos clusts cdev mdev s r")
proof (rule refine_while.raw_induct[where P = ?Q, OF _ assms])
  fix loop :: "real list \<Rightarrow> real list \<Rightarrow> nat list \<Rightarrow> int list \<Rightarrow> real \<Rightarrow> real option \<Rightarrow> rstate
               \<Rightarrow> (error + rstate) option"
    and mzs' intensities' pos clusts cdev mdev s r
  assume IH: "\<And>mzs' intensities' pos clusts cdev mdev s r.
      loop mzs' intensities' pos clusts cdev mdev s = Some r
        \<Longrightarrow> ?Q mzs' intensities' pos clusts cdev mdev s r"
    and step: "(if count_list (used s) 0 > 0
       then (let c = seed_signal intensities' s;
                 s1 = take_signal mzs' pos c s
             in if count_list (used s1) 0 > 0
                then (case refine_grow mzs' pos clusts cdev mdev 0 s1 of
                        None \<Rightarrow> None
                      | Some (Inl e) \<Rightarrow> Some (Inl e)
                      | Some (Inr s2) \<Rightarrow> loop mzs' intensities' pos clusts cdev mdev s2)
                else loop mzs' intensities' pos clusts cdev mdev s1)
       else Some (Inr s)) = Some r"
  show "?Q mzs' intensities' pos clusts cdev mdev s r"
  proof (intro impI allI)
    fix s' assume nn: "list_all (\<lambda>c. 0 \<le> c) clusts" and l: "labelled (length clusts) s"
      and r: "r = Inr s'"
    let ?c = "seed_signal intensities' s"
    let ?s1 = "take_signal mzs' pos ?c s"
    have l1: "labelled (length clusts) ?s1" by (rule take_signal_labelled[OF l])
    show "labelled (length clusts) s'"
    proof (cases "count_list (used s) 0 > 0")
      case False
      then have "s' = s" using step r by simp
      then show ?thesis using l by simp
    next
      case True
      show ?thesis
      proof (cases "count_list (used ?s1) 0 > 0")
        case False
        then have "loop mzs' intensities' pos clusts cdev mdev ?s1 = Some r"
          using step True by (simp add: Let_def)
        from IH[OF this] nn l1 r show ?thesis by blast
      next
        case T2: True
        have g: "(case refine_grow mzs' pos clusts cdev mdev 0 ?s1 of
                        None \<Rightarrow> None
                      | Some (Inl e) \<Rightarrow> Some (Inl e)
                      | Some (Inr s2) \<Rightarrow> loop mzs' intensities' pos clusts cdev mdev s2) = Some r"
          using step True T2 by (simp add: Let_def)
        then obtain s2 where s2: "refine_grow mzs' pos clusts cdev mdev 0 ?s1 = Some (Inr s2)"
          "loop mzs' intensities' pos clusts cdev mdev s2 = Some r"
          using r by (auto split: option.splits sum.splits)
        have "labelled (length clusts) s2" using refine_grow_labelled[OF s2(1)] nn l1 by blast
        with IH[OF s2(2)] nn r show ?thesis by blast
      qed
    qed
  qed
qed

lemma refine_for_labelled:
  assumes "refine_for mzs intensities clusts cdev mdev ps nc mc = Some (Inr out)"
    and "list_all (\<lambda>c. 0 \<le> c) clusts"
    and "length nc = length clusts" and "list_all (\<lambda>c. 0 \<le> c) nc" and "- 1 \<le> mc"
  shows "length out = length clusts \<and> list_all (\<lambda>c. 0 \<le> c) out"
  using assms(1,3,4,5)
proof (induction ps arbitrary: nc mc)
  case Nil
  then show ?case by simp
next
  case (Cons p rest)
  obtain i clust where p: "p = (i, clust)" by (cases p)
  show ?case
  proof (cases "1 < count_list clusts (int i)")
    case False
    then have "refine_for mzs intensities clusts cdev mdev rest nc mc = Some (Inr out)"
      using Cons.prems(1) p by simp
    from Cons.IH[OF this Cons.prems(2,3,4)] show ?thesis .
  next
    case True
    let ?posmask = "map (\<lambda>c. c = clust) clusts"
    let ?mzs' = "mask_select mzs ?posmask"
    let ?s0 = "\<lparr>used = replicate (length ?mzs') 0, usedMZs = replicate (length ?mzs') (0::real),
            newClusts = nc, maxClust = mc + 1\<rparr>"
    have lens: "\<not> (length mzs \<noteq> length clusts \<or> length intensities \<noteq> length clusts)"
    proof
      assume "length mzs \<noteq> length clusts \<or> length intensities \<noteq> length clusts"
      then have "refine_for mzs intensities clusts cdev mdev (p # rest) nc mc = Some (Inl IndexError)"
        using True p by simp
      then show False using Cons.prems(1) by simp
    qed
    have l0: "labelled (length clusts) ?s0"
      using Cons.prems(2,3,4) by (simp add: labelled_def)
    have "(case refine_while ?mzs' (mask_select intensities ?posmask) (np_where ?posmask)
                 clusts cdev mdev ?s0 of
             None \<Rightarrow> None
           | Some (Inl e) \<Rightarrow> Some (Inl e)
           | Some (Inr s) \<Rightarrow> refine_for mzs intensities clusts cdev mdev rest
                               (newClusts s) (maxClust s)) = Some (Inr out)"
      using Cons.prems(1) True p lens by (simp add: Let_def)
    then obtain s' where s': "refine_while ?mzs' (mask_select intensities ?posmask) (np_where ?posmask)
          clusts cdev mdev ?s0 = Some (Inr s')"
      and r: "refine_for mzs intensities clusts cdev mdev rest (newClusts s') (maxClust s')
          = Some (Inr out)"
      by (auto split: option.splits sum.splits)
    have "labelled (length clusts) s'"
      using refine_while_labelled[OF s'] assms(2) l0 by blast
    then have "length (newClusts s') = length clusts" "list_all (\<lambda>c. 0 \<le> c) (newClusts s')"
      "- 1 \<le> maxClust s'"
      by (simp_all add: labelled_def)
    from Cons.IH[OF r this] show ?thesis .
  qed
qed

lemma refine_clustering_labelled:
  assumes "refine_clustering mzs intensities clusts cdev mdev = Some (Inr out)"
    and "list_all (\<lambda>c. 0 \<le> c) clusts"
  shows "length out = length clusts \<and> list_all (\<lambda>c. 0 \<le> c) out"
proof -
  have ne: "clusts \<noteq> []" using assms(1) by (auto simp: refine_clustering_def)
  then have "np_max clusts \<in> set clusts" by (rule np_max_in)
  then have m: "- 1 \<le> np_max clusts" using assms(2) by (auto simp: list_all_iff)
  have "refine_for mzs intensities clusts cdev mdev (enumerate 0 (np_unique clusts)) clusts
          (np_max clusts) = Some (Inr out)"
    using assms(1) ne by (simp add: refine_clustering_def)
  from refine_for_labelled[OF this assms(2) refl assms(2) m] show ?thesis .
qed

subsection \<open>The refined clusters on dense ids and positive intensities\<close>

text \<open>
  On parallel arrays with positive intensities, masses between 0 and \<open>10\<^sup>6\<close> and the
  dense ids \<open>0, \<dots>, k - 1\<close> the function returns, and when \<^verbatim>\<open>max_mz_deviation_ppm\<close> is
  set to \<open>b\<close>, every cluster of the returned assignment that holds at least two signals
  has a ppm spread of at most \<open>b\<close>.
\<close>

lemma refine_clustering_spread_bound_dense:
  assumes "refine_pre mzs intensities clusts" and "clusts \<noteq> []"
    and "set clusts = int ` {0..<k}"
  shows "\<exists>out. refine_clustering mzs intensities clusts cdev (Some b) = Some (Inr out)
           \<and> length out = length clusts
           \<and> (\<forall>c. 2 \<le> length (cluster_mzs mzs out c) \<longrightarrow> ppm_dev (cluster_mzs mzs out c) \<le> b)"
proof -
  from refine_clustering_total[OF assms, of cdev "Some b"] obtain out mc where o:
    "refine_clustering mzs intensities clusts cdev (Some b) = Some (Inr out)"
    "finv mzs clusts (Some b) (np_max clusts) {c \<in> set clusts. 1 < count_list clusts c} out mc"
    by blast
  have "ppm_dev (cluster_mzs mzs out c) \<le> b" if "2 \<le> length (cluster_mzs mzs out c)" for c
    using finv_spread_all[OF o(2), of c] that by (simp add: spread_ok_def)
  moreover have "length out = length clusts" by (rule finvD(1)[OF o(2)])
  ultimately show ?thesis using o(1) by blast
qed

text \<open>
  For ids that are the dense ids \<open>0, \<dots>, k - 1\<close>, every assignment that the function
  returns has one id for every signal of the input, none of them negative, and the sizes of
  its clusters sum to the number of signals; and the function does return one for parallel
  arrays of positive intensities and of masses between 0 and \<open>10\<^sup>6\<close>.
\<close>

lemma refine_clustering_partition_dense:
  assumes "set clusts = int ` {0..<k}"
  shows "(\<forall>out. refine_clustering mzs intensities clusts cdev mdev = Some (Inr out) \<longrightarrow>
            length out = length clusts
            \<and> (\<forall>i<length out. 0 \<le> out ! i)
            \<and> (\<Sum>c\<in>set out. count_list out c) = length clusts)
       \<and> (refine_pre mzs intensities clusts \<and> clusts \<noteq> [] \<longrightarrow>
            (\<exists>out. refine_clustering mzs intensities clusts cdev mdev = Some (Inr out)))"
proof (rule conjI)
  have nn: "list_all (\<lambda>c. 0 \<le> c) clusts" using assms by (auto simp: list_all_iff)
  show "\<forall>out. refine_clustering mzs intensities clusts cdev mdev = Some (Inr out) \<longrightarrow>
            length out = length clusts
            \<and> (\<forall>i<length out. 0 \<le> out ! i)
            \<and> (\<Sum>c\<in>set out. count_list out c) = length clusts"
  proof (rule allI, rule impI)
    fix out assume o: "refine_clustering mzs intensities clusts cdev mdev = Some (Inr out)"
    note l = refine_clustering_labelled[OF o nn]
    have a: "length out = length clusts" using l by simp
    have b: "\<forall>i<length out. 0 \<le> out ! i" using l by (simp add: list_all_length)
    have "(\<Sum>c\<in>set out. count_list out c) = length out"
      by (rule sum_count_set) simp_all
    then have c: "(\<Sum>c\<in>set out. count_list out c) = length clusts" using a by simp
    from a b c show "length out = length clusts
            \<and> (\<forall>i<length out. 0 \<le> out ! i)
            \<and> (\<Sum>c\<in>set out. count_list out c) = length clusts"
      by (intro conjI)
  qed
  show "refine_pre mzs intensities clusts \<and> clusts \<noteq> [] \<longrightarrow>
            (\<exists>out. refine_clustering mzs intensities clusts cdev mdev = Some (Inr out))"
  proof (rule impI)
    assume "refine_pre mzs intensities clusts \<and> clusts \<noteq> []"
    then have p: "refine_pre mzs intensities clusts" "clusts \<noteq> []" by simp_all
    from refine_clustering_total[OF p assms, of cdev mdev]
    show "\<exists>out. refine_clustering mzs intensities clusts cdev mdev = Some (Inr out)" by blast
  qed
qed

subsection \<open>Signals of intensity zero\<close>

text \<open>
  The seed is the \<^verbatim>\<open>argmax\<close> of the intensities multiplied by the mask of the unmarked
  signals. An unmarked signal of intensity zero has the product zero, as every marked signal
  has, and the first index wins, marked or not. For two signals at the masses 100 and 100.01
  in one crude cluster, the second one of intensity zero, the first sub-cluster is seeded at
  the first signal and closed without the second one (the addition of the last unmarked
  signal is always rejected); every later seed is the first signal again, and the second
  signal stays unmarked for ever.
\<close>

lemma refine_grow_rejects_far:
  assumes "used s = [1, 0]" and "usedMZs s = [100, y]" and "length (newClusts s) = 2"
  shows "refine_grow [100, 10001 / 100] [0, 1] [0, 0] 15 None 0 s
       = Some (Inr (s\<lparr>used := [- 1, 0], usedMZs := [0, 0],
                       newClusts := (newClusts s)[1 := 0], maxClust := maxClust s + 1\<rparr>))"
proof -
  have um: "used_mzs s = [100]" using assms by (simp add: used_mzs_def mask_select_def)
  have c: "closest_signal [100, 10001 / 100] s = 1"
    using assms(1) unfolding closest_signal_def um
    by (simp add: dist_to_def np_max_def np_min_def np_argmin_def Let_def)
  let ?s1 = "take_signal [100, 10001 / 100] [0, 1] 1 s"
  have f: "used ?s1 = [1, 1]" "usedMZs ?s1 = [100, 10001 / 100]"
    "newClusts ?s1 = (newClusts s)[1 := maxClust s + 1]" "maxClust ?s1 = maxClust s"
    using assms by (simp_all add: take_signal_def)
  have um1: "used_mzs ?s1 = [100, 10001 / 100]"
    unfolding used_mzs_def f by (simp add: mask_select_def)
  have mean: "np_mean (used_mzs ?s1) \<noteq> 0" unfolding um1 by (simp add: np_mean_def)
  have cnt: "count_list (used ?s1) 0 = 0" unfolding f by simp
  have cl: "close_cluster [0, 0] [0, 1] 1 ?s1
      = s\<lparr>used := [- 1, 0], usedMZs := [0, 0],
           newClusts := (newClusts s)[1 := 0], maxClust := maxClust s + 1\<rparr>"
    using assms by (simp add: close_cluster_def take_signal_def)
  show ?thesis
    by (subst refine_grow.simps) (simp only: c Let_def mean cnt cl if_False if_True simp_thms)
qed

lemma refine_while_zero_intensity_diverges:
  assumes a0: "0 \<le> a"
    and "refine_while mzs' intensities' pos clusts cdev mdev s = Some r"
  shows "\<not> (mzs' = [100, 10001 / 100] \<and> intensities' = [a, 0] \<and> pos = [0, 1] \<and> clusts = [0, 0]
            \<and> cdev = 15 \<and> mdev = None
            \<and> (used s = [0, 0] \<or> used s = [- 1, 0])
            \<and> length (usedMZs s) = 2 \<and> length (newClusts s) = 2)"
    (is "?Q mzs' intensities' pos clusts cdev mdev s r")
proof (rule refine_while.raw_induct[where P = ?Q, OF _ assms(2)])
  fix loop :: "real list \<Rightarrow> real list \<Rightarrow> nat list \<Rightarrow> int list \<Rightarrow> real \<Rightarrow> real option \<Rightarrow> rstate
               \<Rightarrow> (error + rstate) option"
    and mzs' intensities' pos clusts cdev mdev s r
  assume IH: "\<And>mzs' intensities' pos clusts cdev mdev s r.
      loop mzs' intensities' pos clusts cdev mdev s = Some r
        \<Longrightarrow> ?Q mzs' intensities' pos clusts cdev mdev s r"
    and step: "(if count_list (used s) 0 > 0
       then (let c = seed_signal intensities' s;
                 s1 = take_signal mzs' pos c s
             in if count_list (used s1) 0 > 0
                then (case refine_grow mzs' pos clusts cdev mdev 0 s1 of
                        None \<Rightarrow> None
                      | Some (Inl e) \<Rightarrow> Some (Inl e)
                      | Some (Inr s2) \<Rightarrow> loop mzs' intensities' pos clusts cdev mdev s2)
                else loop mzs' intensities' pos clusts cdev mdev s1)
       else Some (Inr s)) = Some r"
  show "?Q mzs' intensities' pos clusts cdev mdev s r"
  proof
    assume inv: "mzs' = [100, 10001 / 100] \<and> intensities' = [a, 0] \<and> pos = [0, 1]
            \<and> clusts = [0, 0] \<and> cdev = 15 \<and> mdev = None
            \<and> (used s = [0, 0] \<or> used s = [- 1, 0])
            \<and> length (usedMZs s) = 2 \<and> length (newClusts s) = 2"
    then have args: "mzs' = [100, 10001 / 100]" "intensities' = [a, 0]" "pos = [0, 1]"
      "clusts = [0, 0]" "cdev = 15" "mdev = None"
      and u: "used s = [0, 0] \<or> used s = [- 1, 0]"
      and len: "length (usedMZs s) = 2" "length (newClusts s) = 2"
      by simp_all
    obtain x y where xy: "usedMZs s = [x, y]"
      using len(1) by (cases "usedMZs s"; cases "tl (usedMZs s)") auto
    have c0: "0 < count_list (used s) 0" using u by auto
    have seed: "seed_signal [a, 0] s = 0"
      using u a0 by (auto simp: seed_signal_def np_argmax_def np_max_def max_def)
    let ?s1 = "take_signal [100, 10001 / 100] [0, 1] 0 s"
    have f: "used ?s1 = [1, 0]" "usedMZs ?s1 = [100, y]" "length (newClusts ?s1) = 2"
      using u xy len(2) by (auto simp: take_signal_def)
    have c1: "0 < count_list (used ?s1) 0" unfolding f by simp
    let ?s2 = "?s1\<lparr>used := [- 1, 0], usedMZs := [0, 0],
                    newClusts := (newClusts ?s1)[1 := 0], maxClust := maxClust ?s1 + 1\<rparr>"
    note g = refine_grow_rejects_far[OF f]
    have l: "loop mzs' intensities' pos clusts cdev mdev ?s2 = Some r"
      using step c0 c1 unfolding args seed Let_def g by simp
    have "mzs' = [100, 10001 / 100] \<and> intensities' = [a, 0] \<and> pos = [0, 1]
            \<and> clusts = [0, 0] \<and> cdev = 15 \<and> mdev = None
            \<and> (used ?s2 = [0, 0] \<or> used ?s2 = [- 1, 0])
            \<and> length (usedMZs ?s2) = 2 \<and> length (newClusts ?s2) = 2"
      using args f(3) by simp
    with IH[OF l] show False by blast
  qed
qed

lemma refine_clustering_zero_intensity_diverges:
  assumes "0 \<le> a"
  shows "refine_clustering [100, 10001 / 100] [a, 0] [0, 0] 15 None = None"
proof -
  let ?s0 = "\<lparr>used = [0, 0], usedMZs = [0, 0], newClusts = [0, 0], maxClust = 1\<rparr>"
  have w: "refine_while [100, 10001 / 100] [a, 0] [0, 1] [0, 0] 15 None ?s0 = None"
  proof (cases "refine_while [100, 10001 / 100] [a, 0] [0, 1] [0, 0] 15 None ?s0")
    case None
    then show ?thesis .
  next
    case (Some r)
    from refine_while_zero_intensity_diverges[OF assms Some] show ?thesis by simp
  qed
  then have w': "refine_while [100, 10001 / 100] [a, 0] [0, Suc 0] [0, 0] 15 None ?s0 = None"
    by simp
  have u: "np_unique [0, 0] = [0]" by (simp add: np_unique_def)
  show ?thesis
    unfolding refine_clustering_def u
    by (simp add: np_max_def mask_select_def np_where_def Let_def w' numeral_2_eq_2)
qed

text \<open>
  Claim C4 (for dense ids that are not negative, the assignment returned by
  \<^verbatim>\<open>refine_clustering\<close> gives every signal exactly one cluster id, never the sentinel
  \<open>-1\<close>, and the sizes of the sub-clusters sum to the number of signals) fails on the code:
  there are such inputs on which no assignment is returned. For the masses 100 and 100.01 with
  the intensities 5 and 0 and the ids \<open>[0, 0]\<close> the first sub-cluster is seeded at the first
  signal and closed; in the state that follows, the products of the intensities with the
  mask of the unmarked signals are \<open>[0, 0]\<close> and the seed is the first signal again. The
  second signal never gets a cluster, and the loop \<^verbatim>\<open>while sum(used == 0) > 0\<close> does not
  terminate.
\<close>

theorem refine_clustering_diverges:
  "refine_clustering [100, 10001 / 100] [5, 0] [0, 0] 15 None = None
   \<and> set [0, 0 :: int] = int ` {0..<1}
   \<and> seed_signal [5, 0] \<lparr>used = [0, 0], usedMZs = [0, 0], newClusts = [0, 0], maxClust = 1\<rparr> = 0
   \<and> refine_grow [100, 10001 / 100] [0, 1] [0, 0] 15 None 0
         \<lparr>used = [1, 0], usedMZs = [100, 0], newClusts = [2, 0], maxClust = 1\<rparr>
       = Some (Inr \<lparr>used = [- 1, 0], usedMZs = [0, 0], newClusts = [2, 0], maxClust = 2\<rparr>)
   \<and> seed_signal [5, 0] \<lparr>used = [- 1, 0], usedMZs = [0, 0], newClusts = [2, 0], maxClust = 2\<rparr> = 0"
proof -
  have d: "refine_clustering [100, 10001 / 100] [5, 0] [0, 0] 15 None = None"
    by (rule refine_clustering_zero_intensity_diverges) simp
  have i: "set [0, 0 :: int] = int ` {0..<1}" by simp
  have s1: "seed_signal [5, 0]
      \<lparr>used = [0, 0], usedMZs = [0, 0], newClusts = [0, 0], maxClust = 1\<rparr> = 0"
    by (simp add: seed_signal_def np_argmax_def np_max_def)
  have g: "refine_grow [100, 10001 / 100] [0, 1] [0, 0] 15 None 0
         \<lparr>used = [1, 0], usedMZs = [100, 0], newClusts = [2, 0], maxClust = 1\<rparr>
       = Some (Inr \<lparr>used = [- 1, 0], usedMZs = [0, 0], newClusts = [2, 0], maxClust = 2\<rparr>)"
    using refine_grow_rejects_far[of "\<lparr>used = [1, 0], usedMZs = [100, 0], newClusts = [2, 0],
        maxClust = 1\<rparr>" 0]
    by simp
  have s2: "seed_signal [5, 0]
      \<lparr>used = [- 1, 0], usedMZs = [0, 0], newClusts = [2, 0], maxClust = 2\<rparr> = 0"
    by (simp add: seed_signal_def np_argmax_def np_max_def)
  from d i s1 g s2 show ?thesis by (intro conjI)
qed

subsection \<open>Cluster ids with a gap\<close>

text \<open>
  Claim C2 (when \<^verbatim>\<open>max_mz_deviation_ppm\<close> is set, every sub-cluster produced by
  \<^verbatim>\<open>refine_clustering\<close> with at least two signals has a ppm spread
  \<^verbatim>\<open>(max - min) / mean * 1E6\<close> of at most that bound) fails on the code. The size test of a
  crude cluster reads \<^verbatim>\<open>n = np.sum(clusts == i)\<close>, with the position \<open>i\<close> of the id among
  the sorted distinct ids, where the cluster itself is \<^verbatim>\<open>clusts == clust\<close>. For ids with a
  gap the test counts the signals of another id, and a crude cluster of several signals is
  returned as it is. With the ids \<open>[0, 2, 2]\<close>, the masses 100, 200, 300 and the bound 20
  the tests read the sizes of the ids 0 and 1, which are 1 and 0: the function returns
  \<open>[0, 2, 2]\<close>, where cluster 2 holds the masses 200 and 300, a spread of 400000 ppm. The
  same signals with the dense ids \<open>[0, 1, 1]\<close> are split.
\<close>

theorem refine_clustering_skips_cluster:
  "refine_clustering [100, 200, 300] [5, 3, 1] [0, 2, 2] 15 (Some 20) = Some (Inr [0, 2, 2])
   \<and> refine_pre [100, 200, 300] [5, 3, 1] [0, 2, 2]
   \<and> enumerate 0 (np_unique [0, 2, 2]) = [(0, 0), (1, 2)]
   \<and> count_list [0, 2, 2 :: int] 0 = 1 \<and> count_list [0, 2, 2 :: int] 1 = 0
   \<and> cluster_mzs [100, 200, 300] [0, 2, 2] 2 = [200, 300]
   \<and> ppm_dev (cluster_mzs [100, 200, 300] [0, 2, 2] 2) = 400000
   \<and> 20 < ppm_dev (cluster_mzs [100, 200, 300] [0, 2, 2] 2)
   \<and> refine_clustering [100, 200, 300] [5, 3, 1] [0, 1, 1] 15 (Some 20) = Some (Inr [0, 3, 4])"
proof -
  have r: "refine_clustering [100, 200, 300] [5, 3, 1] [0, 2, 2] 15 (Some 20)
      = Some (Inr [0, 2, 2])"
    by code_simp
  have p: "refine_pre [100, 200, 300] [5, 3, 1] [0, 2, 2]" by code_simp
  have e: "enumerate 0 (np_unique [0, 2, 2]) = [(0, 0), (1, 2)]" by code_simp
  have n: "count_list [0, 2, 2 :: int] 0 = 1" "count_list [0, 2, 2 :: int] 1 = 0" by simp_all
  have c: "cluster_mzs [100, 200, 300] [0, 2, 2] 2 = [200, 300]" by code_simp
  have d: "ppm_dev (cluster_mzs [100, 200, 300] [0, 2, 2] 2) = 400000"
    unfolding c by (simp add: ppm_dev_def np_max_def np_min_def np_mean_def)
  have d': "20 < ppm_dev (cluster_mzs [100, 200, 300] [0, 2, 2] 2)" unfolding d by simp
  have r': "refine_clustering [100, 200, 300] [5, 3, 1] [0, 1, 1] 15 (Some 20)
      = Some (Inr [0, 3, 4])"
    by code_simp
  from r p e n c d d' r' show ?thesis by (intro conjI)
qed

end
